theory Spec2Isabelle
  imports Main "HOL-Library.AList" "HOL-Library.Char_ord" "HOL-Library.List_Lexorder"
    "HOL-Library.Multiset" "HOL-Library.Word"
begin

section \<open>Values of the script engine\<close>

text \<open>
  A script function is known to the host by its handle. A \<^verbatim>\<open>v8::Local<v8::Function>\<close> or
  a \<^verbatim>\<open>v8::Persistent<v8::Function>\<close> is a handle or empty (\<open>None\<close>); \<^verbatim>\<open>IsEmpty()\<close> is
  \<open>= None\<close> and \<^verbatim>\<open>==\<close> on two of them is equality.
\<close>

type_synonym handle = nat

type_synonym v8_function = "handle option"

text \<open>
  \<^verbatim>\<open>plugin::Arguments\<close> (arguments.h) maps names to \<^verbatim>\<open>std::any\<close> values; the functions
  below only move it around.
\<close>

datatype any = AnyInteger int | AnyString string

type_synonym Arguments = "(string \<times> any) list"

text \<open>
  The script values the callbacks see. A number is kept as the \<^verbatim>\<open>int64_t\<close> that
  \<^verbatim>\<open>GetInt64\<close> reads from it. \<open>JSEvent name arguments prevented\<close> is an instance of an event
  interface with its default-prevented flag. An array holds \<open>None\<close> at an index that was
  never set (a hole).
\<close>

datatype js_value =
    JSUndefined
  | JSNull
  | JSBoolean bool
  | JSNumber "64 word"
  | JSString string
  | JSFunction handle
  | JSEvent string Arguments bool
  | JSObject "(string \<times> js_value) list"
  | JSArray "js_value option list"
  | JSPromise nat

datatype js_exception = TypeError string

fun IsString :: "js_value \<Rightarrow> bool" where
  "IsString (JSString s) = True"
| "IsString v = False"

fun IsFunction :: "js_value \<Rightarrow> bool" where
  "IsFunction (JSFunction f) = True"
| "IsFunction v = False"

fun IsNumber :: "js_value \<Rightarrow> bool" where
  "IsNumber (JSNumber n) = True"
| "IsNumber v = False"

text \<open>\<^verbatim>\<open>v8::Local<v8::Function>::Cast\<close>, used after \<^verbatim>\<open>IsFunction\<close> only.\<close>

fun Function_Cast :: "js_value \<Rightarrow> v8_function" where
  "Function_Cast (JSFunction f) = Some f"
| "Function_Cast v = None"

text \<open>
  utilities.h. \<^verbatim>\<open>v8String\<close> builds the script string from \<^verbatim>\<open>c_str()\<close>, which ends at the
  first NUL character. \<^verbatim>\<open>toString\<close> gives the text of a value as the engine converts it;
  all callbacks but \<^verbatim>\<open>ReadFileCallback\<close> apply it to strings only, and the text of a
  number, a function or an object is not modelled.
\<close>

definition c_str :: "string \<Rightarrow> string" where
  "c_str s = takeWhile (\<lambda>c. c \<noteq> CHR 0x00) s"

definition v8String :: "string \<Rightarrow> js_value" where
  "v8String s = JSString (c_str s)"

fun toString :: "js_value \<Rightarrow> string" where
  "toString (JSString s) = s"
| "toString JSNull = ''null''"
| "toString JSUndefined = ''undefined''"
| "toString (JSBoolean b) = (if b then ''true'' else ''false'')"
| "toString v = []"

text \<open>\<^verbatim>\<open>std::to_string\<close> on an argument count.\<close>

function to_string :: "nat \<Rightarrow> string" where
  "to_string n =
     (if n < 10 then [''0123456789'' ! n]
      else to_string (n div 10) @ [''0123456789'' ! (n mod 10)])"
  by pat_completeness auto
termination
  by (relation "measure id") auto

declare to_string.simps [simp del]

text \<open>\<^verbatim>\<open>arguments[i]\<close> of a \<^verbatim>\<open>v8::FunctionCallbackInfo\<close> is undefined beyond \<^verbatim>\<open>Length()\<close>.\<close>

definition arg :: "js_value list \<Rightarrow> nat \<Rightarrow> js_value" where
  "arg arguments i = (if i < length arguments then arguments ! i else JSUndefined)"

section \<open>The state\<close>

text \<open>
  The interface of an event (event.h is not among the sources) is known by its name.
\<close>

datatype Event = Event string

text \<open>One constructor for each \<^verbatim>\<open>LOG\<close> statement of the modelled functions.\<close>

datatype log_message =
    StillHasListeners string nat
  | NotClearingMap
  | EmptyFunctionFound string
  | UnableToCoerce string
  | UnrecognizedEventName string

text \<open>
  \<^verbatim>\<open>GlobalScope\<close>. The three maps are association lists; the order of a list is the order
  in which the container is iterated. \<open>event_listeners\<close> maps a type to its vector of
  persistent functions.
\<close>

record GlobalScope =
  finalized :: bool
  events :: "(string \<times> Event) list"
  event_listeners :: "(string \<times> v8_function list) list"
  deferred_events :: "(string \<times> Arguments) list"

text \<open>The constructor of \<^verbatim>\<open>GlobalScope\<close>, and \<^verbatim>\<open>RegisterEvent\<close>.\<close>

definition GlobalScope_new :: GlobalScope where
  "GlobalScope_new = \<lparr>finalized = False, events = [], event_listeners = [], deferred_events = []\<rparr>"

definition RegisterEvent :: "string \<Rightarrow> Event \<Rightarrow> GlobalScope \<Rightarrow> GlobalScope" where
  "RegisterEvent type event g = g\<lparr>events := AList.update type event (events g)\<rparr>"

section \<open>The event listener registry (global\_scope.cc)\<close>

text \<open>
  \<^verbatim>\<open>event_listeners_[type]\<close>: the entry of \<open>type\<close>, created with an empty vector when there
  is none.
\<close>

definition subscript ::
  "(string \<times> v8_function list) list \<Rightarrow> string \<Rightarrow> (string \<times> v8_function list) list" where
  "subscript m type = (case map_of m type of None \<Rightarrow> m @ [(type, [])] | Some v \<Rightarrow> m)"

definition AddEventListener :: "string \<Rightarrow> v8_function \<Rightarrow> GlobalScope \<Rightarrow> GlobalScope" where
  "AddEventListener type listener g =
     g\<lparr>event_listeners :=
         AList.map_entry type (\<lambda>v. v @ [listener]) (subscript (event_listeners g) type)\<rparr>"

definition HasEventListeners :: "string \<Rightarrow> GlobalScope \<Rightarrow> bool" where
  "HasEventListeners type g =
     (case map_of (event_listeners g) type of
        None \<Rightarrow> False
      | Some v \<Rightarrow> length v > 0)"

text \<open>\<^verbatim>\<open>std::vector::erase\<close> at position \<open>i\<close>.\<close>

definition vector_erase :: "'a list \<Rightarrow> nat \<Rightarrow> 'a list" where
  "vector_erase v i = take i v @ drop (Suc i) v"

text \<open>
  The \<^verbatim>\<open>while\<close> loop of \<^verbatim>\<open>RemoveEventListener\<close>: \<open>i\<close> is the position of
  \<^verbatim>\<open>event_listener_iter\<close>, which stays where it is after an erase.
\<close>

function RemoveEventListener_loop ::
  "v8_function \<Rightarrow> v8_function list \<Rightarrow> nat \<Rightarrow> v8_function list" where
  "RemoveEventListener_loop listener v i =
     (if i < length v then
        (if listener = v ! i then RemoveEventListener_loop listener (vector_erase v i) i
         else RemoveEventListener_loop listener v (Suc i))
      else v)"
  by pat_completeness auto
termination
  by (relation "measure (\<lambda>(listener, v, i). length v - i)") (auto simp: vector_erase_def)

declare RemoveEventListener_loop.simps [simp del]

definition RemoveEventListener :: "string \<Rightarrow> v8_function \<Rightarrow> GlobalScope \<Rightarrow> GlobalScope" where
  "RemoveEventListener type listener g =
     (case map_of (event_listeners g) type of
        None \<Rightarrow> g
      | Some v \<Rightarrow>
          if listener = None then g\<lparr>event_listeners := AList.delete type (event_listeners g)\<rparr>
          else g\<lparr>event_listeners :=
                   AList.update type (RemoveEventListener_loop listener v 0) (event_listeners g)\<rparr>)"

text \<open>
  \<^verbatim>\<open>VerifyNoEventHandlersLeft\<close>: the loop carries the counter \<open>warnings\<close> and the lines
  logged so far.
\<close>

fun VerifyNoEventHandlersLeft_loop ::
  "(string \<times> v8_function list) list \<Rightarrow> nat \<times> log_message list \<Rightarrow> nat \<times> log_message list" where
  "VerifyNoEventHandlersLeft_loop [] acc = acc"
| "VerifyNoEventHandlersLeft_loop ((type, listeners) # rest) (warnings, out) =
     (let count = length listeners in
      if count = 0 then VerifyNoEventHandlersLeft_loop rest (warnings, out)
      else VerifyNoEventHandlersLeft_loop rest (warnings + 1, out @ [StillHasListeners type count]))"

definition VerifyNoEventHandlersLeft :: "GlobalScope \<Rightarrow> log_message list \<times> GlobalScope" where
  "VerifyNoEventHandlersLeft g =
     (case VerifyNoEventHandlersLeft_loop (event_listeners g) (0, []) of
        (warnings, out) \<Rightarrow>
          if warnings > 0 then (out @ [NotClearingMap], g)
          else (out, g\<lparr>event_listeners := []\<rparr>))"

section \<open>Deferred events\<close>

text \<open>
  \<^verbatim>\<open>deferred_events_\<close> is a \<^verbatim>\<open>DeferredEventMultimapType\<close>. Its declaration is in
  global\_scope.h, which is not among the sources; by its name and by the call
  \<^verbatim>\<open>insert({ type, std::move(arguments) })\<close> it is a \<^verbatim>\<open>std::multimap\<close> from the type to
  the arguments. The list of its entries is kept in the order in which it is iterated:
  the types ascend, and \<^verbatim>\<open>insert\<close> puts an entry behind the entries of the same type.
\<close>

fun multimap_insert :: "string \<times> 'v \<Rightarrow> (string \<times> 'v) list \<Rightarrow> (string \<times> 'v) list" where
  "multimap_insert e [] = [e]"
| "multimap_insert e (x # xs) =
     (if fst e < fst x then e # x # xs else x # multimap_insert e xs)"

definition StoreDeferredEvent :: "string \<Rightarrow> Arguments \<Rightarrow> GlobalScope \<Rightarrow> GlobalScope" where
  "StoreDeferredEvent type arguments g =
     g\<lparr>deferred_events := multimap_insert (type, arguments) (deferred_events g)\<rparr>"

definition GetEvent :: "string \<Rightarrow> GlobalScope \<Rightarrow> Event option" where
  "GetEvent type g = map_of (events g) type"

text \<open>
  Modelled from the spec: \<^verbatim>\<open>Event::NewInstance\<close> and \<^verbatim>\<open>Event::DefaultPrevented\<close> (event.h
  and event.cc are not among the sources). The descriptor constructs the argument object
  of its interface from the native argument bag; a new instance is not default-prevented.
  \<open>DefaultPrevented\<close> reads the payload's default-prevented flag, which only an instance
  of an event interface has.
\<close>

fun NewInstance :: "Event \<Rightarrow> Arguments \<Rightarrow> js_value" where
  "NewInstance (Event name) arguments = JSEvent name arguments False"

fun DefaultPrevented :: "js_value \<Rightarrow> bool" where
  "DefaultPrevented (JSEvent name arguments prevented) = prevented"
| "DefaultPrevented v = False"

text \<open>\<^verbatim>\<open>v8::Array::Set\<close>: a script array grows when it is set beyond its length.\<close>

definition array_Set :: "js_value option list \<Rightarrow> nat \<Rightarrow> js_value \<Rightarrow> js_value option list" where
  "array_Set a i v =
     (if i < length a then a[i := Some v]
      else a @ replicate (i - length a) None @ [Some v])"

text \<open>The \<^verbatim>\<open>{type, event}\<close> object that \<^verbatim>\<open>GetDeferredEventsCallback\<close> builds for an entry.\<close>

definition deferred_record :: "string \<Rightarrow> Event \<Rightarrow> Arguments \<Rightarrow> js_value" where
  "deferred_record type event arguments =
     JSObject [(c_str ''type'', v8String type), (c_str ''event'', NewInstance event arguments)]"

text \<open>
  The loop of \<^verbatim>\<open>GetDeferredEventsCallback\<close> carries the array, \<open>index\<close> and the lines
  logged so far.
\<close>

fun GetDeferredEventsCallback_loop ::
  "GlobalScope \<Rightarrow> (string \<times> Arguments) list \<Rightarrow>
     js_value option list \<times> nat \<times> log_message list \<Rightarrow>
     js_value option list \<times> nat \<times> log_message list" where
  "GetDeferredEventsCallback_loop g [] acc = acc"
| "GetDeferredEventsCallback_loop g ((type, arguments) # rest) (array, index, out) =
     (case GetEvent type g of
        None \<Rightarrow>
          GetDeferredEventsCallback_loop g rest (array, index, out @ [UnrecognizedEventName type])
      | Some event \<Rightarrow>
          GetDeferredEventsCallback_loop g rest
            (array_Set array index (deferred_record type event arguments), index + 1, out))"

section \<open>The runtime\<close>

text \<open>
  Modelled from the spec: the Exception Queue (exception\_handler.h is not among the
  sources). It is a FIFO queue of captured (filename, line, message) records, each with the
  source tag of the operation in progress when the error occurred. A
  \<^verbatim>\<open>ScopedExceptionSource\<close> sets that tag for its scope.
\<close>

record queued_message =
  msg_source :: string
  msg_filename :: string
  msg_line :: nat
  msg_text :: string

record ExceptionHandler =
  source_stack :: "string list"
  message_queue :: "queued_message list"

definition enter_source :: "string \<Rightarrow> ExceptionHandler \<Rightarrow> ExceptionHandler" where
  "enter_source tag h = h\<lparr>source_stack := tag # source_stack h\<rparr>"

definition leave_source :: "ExceptionHandler \<Rightarrow> ExceptionHandler" where
  "leave_source h = h\<lparr>source_stack := tl (source_stack h)\<rparr>"

definition current_source :: "ExceptionHandler \<Rightarrow> string" where
  "current_source h = (case source_stack h of [] \<Rightarrow> [] | tag # below \<Rightarrow> tag)"

definition capture :: "string \<Rightarrow> nat \<Rightarrow> string \<Rightarrow> ExceptionHandler \<Rightarrow> ExceptionHandler" where
  "capture file line text h =
     h\<lparr>message_queue := message_queue h @
         [\<lparr>msg_source = current_source h,
           msg_filename = file, msg_line = line, msg_text = text\<rparr>]\<rparr>"

text \<open>
  Modelled from the spec: \<^verbatim>\<open>Promise\<close> (promise.h is not among the sources), a
  single-resolution future: an engine-visible promise and a resolution flag.
\<close>

datatype promise_state = Pending | Resolved js_value

text \<open>
  The runtime (runtime.h) as far as the modelled functions reach it. A promise is known by
  its index in \<open>promises\<close>. A timer queue entry is a deadline and a promise. Three fields
  record what happened: \<open>logged\<close> the log lines, \<open>calls\<close> each call of a script function
  with its argument, \<open>resolutions\<close> each promise resolved with the value, all in order.
\<close>

record Runtime =
  global_scope :: GlobalScope
  exception_handler :: ExceptionHandler
  timer_queue :: "(int \<times> nat) list"
  promises :: "promise_state list"
  logged :: "log_message list"
  calls :: "(handle \<times> js_value) list"
  resolutions :: "(nat \<times> js_value) list"

text \<open>
  What a callback leaves behind: the runtime, the return value (undefined unless set) and
  the script exception it threw, if any.
\<close>

record callback_result =
  runtime_after :: Runtime
  return_value :: js_value
  exception :: "js_exception option"

definition returned :: "Runtime \<Rightarrow> callback_result" where
  "returned rt = \<lparr>runtime_after = rt, return_value = JSUndefined, exception = None\<rparr>"

text \<open>utilities.h: \<^verbatim>\<open>ThrowException\<close> throws a TypeError with the message into the script.\<close>

definition ThrowException :: "string \<Rightarrow> callback_result \<Rightarrow> callback_result" where
  "ThrowException text r = r\<lparr>exception := Some (TypeError (c_str text))\<rparr>"

text \<open>
  Modelled from the spec: \<^verbatim>\<open>Runtime::Create\<close> (runtime.cc is not among the sources)
  constructs the owned subsystems and starts nothing.
\<close>

definition Create :: Runtime where
  "Create =
     \<lparr>global_scope = GlobalScope_new,
      exception_handler = \<lparr>source_stack = [], message_queue = []\<rparr>,
      timer_queue = [], promises = [], logged = [], calls = [], resolutions = []\<rparr>"

section \<open>Calling a listener\<close>

text \<open>
  What a script function does when it runs is given as the sequence of operations it
  performs on its argument and on the global scope: it marks the payload
  default-prevented, adds or removes a listener through the bridge, or throws, which ends
  it. \<open>scripts\<close> gives this sequence for each function.
\<close>

datatype action =
    PreventDefault
  | AddListener string handle
  | RemoveListener string v8_function
  | Throw string nat string

type_synonym scripts = "handle \<Rightarrow> action list"

fun preventDefault :: "js_value \<Rightarrow> js_value" where
  "preventDefault (JSEvent name arguments prevented) = JSEvent name arguments True"
| "preventDefault v = v"

text \<open>
  Whether \<^verbatim>\<open>RemoveEventListener\<close> erases from the vector of \<open>type\<close>, or erases the vector
  with its entry.
\<close>

definition erases :: "string \<Rightarrow> v8_function \<Rightarrow> GlobalScope \<Rightarrow> bool" where
  "erases type listener g =
     (case map_of (event_listeners g) type of
        None \<Rightarrow> False
      | Some v \<Rightarrow> listener = None \<or> listener \<in> set v)"

text \<open>
  Running a script on a payload and a runtime. The third component collects the types
  whose vector of listeners was changed by a \<^verbatim>\<open>push_back\<close> or an \<^verbatim>\<open>erase\<close>, or destroyed.
\<close>

fun run :: "action list \<Rightarrow> js_value \<times> Runtime \<times> string list \<Rightarrow> js_value \<times> Runtime \<times> string list" where
  "run [] st = st"
| "run (PreventDefault # rest) (event, rt, touched) = run rest (preventDefault event, rt, touched)"
| "run (AddListener type f # rest) (event, rt, touched) =
     run rest
       (event, rt\<lparr>global_scope := AddEventListener type (Some f) (global_scope rt)\<rparr>,
        touched @ [type])"
| "run (RemoveListener type listener # rest) (event, rt, touched) =
     run rest
       (event, rt\<lparr>global_scope := RemoveEventListener type listener (global_scope rt)\<rparr>,
        (if erases type listener (global_scope rt) then touched @ [type] else touched))"
| "run (Throw file line text # rest) (event, rt, touched) =
     (event, rt\<lparr>exception_handler := capture file line text (exception_handler rt)\<rparr>, touched)"

text \<open>
  Modelled from the spec: \<^verbatim>\<open>Call\<close> (runtime\_operations.h is not among the sources). It
  runs the function with the payload; an exception the function throws is captured by the
  Exception Queue and does not leave \<open>Call\<close>.
\<close>

definition Call :: "scripts \<Rightarrow> handle \<Rightarrow> js_value \<Rightarrow> Runtime \<Rightarrow> js_value \<times> Runtime \<times> string list" where
  "Call sc f event rt = run (sc f) (event, rt\<lparr>calls := calls rt @ [(f, event)]\<rparr>, [])"

section \<open>Dispatching an event (global\_scope.cc)\<close>

text \<open>
  The range-based \<^verbatim>\<open>for\<close> of \<^verbatim>\<open>DispatchEvent\<close> walks the vector of the type itself, with
  the iterators it took before the first listener ran. A \<^verbatim>\<open>push_back\<close> or an \<^verbatim>\<open>erase\<close> on
  that vector invalidates them (the past-the-end iterator in every case), and erasing the
  entry of the type destroys the vector. Going on with the loop is then undefined
  behaviour: the model stops with \<open>IteratorInvalidated\<close> and the runtime reached. As long
  as no call touches the vector, it is the list the loop started with.
\<close>

datatype dispatch_error = IteratorInvalidated

text \<open>\<^verbatim>\<open>v8::Local<v8::Function>::New\<close> of a persistent function.\<close>

definition Local_New :: "v8_function \<Rightarrow> v8_function" where
  "Local_New persistent_function = persistent_function"

fun DispatchEvent_loop ::
  "scripts \<Rightarrow> string \<Rightarrow> v8_function list \<Rightarrow> js_value \<times> Runtime \<Rightarrow>
     dispatch_error \<times> Runtime + js_value \<times> Runtime" where
  "DispatchEvent_loop sc type [] (event, rt) = Inr (event, rt)"
| "DispatchEvent_loop sc type (persistent_function # rest) (event, rt) =
     (if persistent_function = None then
        DispatchEvent_loop sc type rest (event, rt\<lparr>logged := logged rt @ [EmptyFunctionFound type]\<rparr>)
      else
        (case Local_New persistent_function of
           None \<Rightarrow>
             DispatchEvent_loop sc type rest (event, rt\<lparr>logged := logged rt @ [UnableToCoerce type]\<rparr>)
         | Some function \<Rightarrow>
             (case Call sc function event rt of
                (event', rt', touched) \<Rightarrow>
                  if type \<in> set touched then Inl (IteratorInvalidated, rt')
                  else DispatchEvent_loop sc type rest (event', rt'))))"

definition DispatchEvent ::
  "scripts \<Rightarrow> string \<Rightarrow> js_value \<Rightarrow> Runtime \<Rightarrow>
     dispatch_error \<times> Runtime + bool \<times> js_value \<times> Runtime" where
  "DispatchEvent sc type event rt =
     (case map_of (event_listeners (global_scope rt)) type of
        None \<Rightarrow> Inr (False, event, rt)
      | Some v \<Rightarrow>
          (case DispatchEvent_loop sc type v
                  (event,
                   rt\<lparr>exception_handler :=
                        enter_source (''dispatched event `'' @ type @ ''`'') (exception_handler rt)\<rparr>) of
             Inl e \<Rightarrow> Inl e
           | Inr (event', rt') \<Rightarrow>
               Inr (DefaultPrevented event', event',
                    rt'\<lparr>exception_handler := leave_source (exception_handler rt')\<rparr>)))"

section \<open>The callbacks of the bridge (global\_callbacks.cc)\<close>

definition AddEventListenerCallback :: "js_value list \<Rightarrow> Runtime \<Rightarrow> callback_result" where
  "AddEventListenerCallback arguments rt =
     (if length arguments < 2 then
        ThrowException
          (''unable to execute addEventListener(): 2 arguments required, but only '' @
           to_string (length arguments) @ '' provided.'') (returned rt)
      else if \<not> IsString (arg arguments 0) then
        ThrowException
          ''unable to execute addEventListener(): expected a string for argument 1.'' (returned rt)
      else if \<not> IsFunction (arg arguments 1) then
        ThrowException
          ''unable to execute addEventListener(): expected a function for argument 2.'' (returned rt)
      else
        returned
          (rt\<lparr>global_scope :=
                AddEventListener (toString (arg arguments 0)) (Function_Cast (arg arguments 1))
                  (global_scope rt)\<rparr>))"

text \<open>
  \<^verbatim>\<open>DispatchEventCallback\<close> calls \<^verbatim>\<open>DispatchEvent\<close> and drops what it returns: the return
  value of the callback is never set.
\<close>

definition DispatchEventCallback ::
  "scripts \<Rightarrow> js_value list \<Rightarrow> Runtime \<Rightarrow> dispatch_error \<times> Runtime + callback_result" where
  "DispatchEventCallback sc arguments rt =
     (if length arguments = 0 then
        Inr (ThrowException
          ''unable to execute dispatchEvent(): 1 argument required, but only 0 provided.''
          (returned rt))
      else if \<not> IsString (arg arguments 0) then
        Inr (ThrowException
          ''unable to execute dispatchEvent(): expected a string for argument 1.'' (returned rt))
      else
        (let type = toString (arg arguments 0) in
         case (if length arguments \<ge> 2 then DispatchEvent sc type (arg arguments 1) rt
               else DispatchEvent sc type JSNull rt) of
           Inl e \<Rightarrow> Inl e
         | Inr (prevented, event', rt') \<Rightarrow> Inr (returned rt')))"


definition RemoveEventListenerCallback :: "js_value list \<Rightarrow> Runtime \<Rightarrow> callback_result" where
  "RemoveEventListenerCallback arguments rt =
     (if length arguments = 0 then
        ThrowException
          ''unable to execute removeEventListener(): 1 argument required, but 0 provided.''
          (returned rt)
      else if \<not> IsString (arg arguments 0) then
        ThrowException
          ''unable to execute removeEventListener(): expected a string for argument 1.''
          (returned rt)
      else
        (let function = (if IsFunction (arg arguments 1) then Function_Cast (arg arguments 1)
                         else None)
         in returned
              (rt\<lparr>global_scope :=
                    RemoveEventListener (toString (arg arguments 0)) function (global_scope rt)\<rparr>)))"

definition GetDeferredEventsCallback :: "js_value list \<Rightarrow> Runtime \<Rightarrow> callback_result" where
  "GetDeferredEventsCallback arguments rt =
     (let g = global_scope rt in
      case GetDeferredEventsCallback_loop g (deferred_events g)
             (replicate (length (deferred_events g)) None, 0, []) of
        (array, index, out) \<Rightarrow>
          (returned
             (rt\<lparr>global_scope := g\<lparr>deferred_events := []\<rparr>, logged := logged rt @ out\<rparr>))
            \<lparr>return_value := JSArray array\<rparr>)"

section \<open>Timers\<close>

text \<open>
  Modelled from the spec: \<^verbatim>\<open>Promise::Resolve\<close> fulfils the promise once; a second call is
  a no-op.
\<close>

definition Resolve :: "nat \<Rightarrow> js_value \<Rightarrow> Runtime \<Rightarrow> Runtime" where
  "Resolve promise v rt =
     (if promise < length (promises rt) \<and> promises rt ! promise = Pending then
        rt\<lparr>promises := (promises rt)[promise := Resolved v],
           resolutions := resolutions rt @ [(promise, v)]\<rparr>
      else rt)"

text \<open>
  Modelled from the spec: the Timer Queue (timer\_queue.h is not among the sources), a
  collection of pending (deadline, promise) pairs. \<open>Add\<close> inserts with the deadline
  \<open>now + delay\<close>. The resolution pass selects every entry whose deadline is at most the
  current time, processes them in ascending order of deadline, ties in the order of
  insertion, removes each from the queue and resolves its promise with no value. Times are
  whole milliseconds.
\<close>

definition TimerQueue_Add :: "int \<Rightarrow> nat \<Rightarrow> int \<Rightarrow> (int \<times> nat) list \<Rightarrow> (int \<times> nat) list" where
  "TimerQueue_Add now promise time q = q @ [(now + time, promise)]"

definition due :: "int \<Rightarrow> (int \<times> nat) list \<Rightarrow> (int \<times> nat) list" where
  "due now q = sort_key fst (filter (\<lambda>entry. fst entry \<le> now) q)"

fun resolve_entries :: "(int \<times> nat) list \<Rightarrow> Runtime \<Rightarrow> Runtime" where
  "resolve_entries [] rt = rt"
| "resolve_entries (entry # rest) rt =
     resolve_entries rest
       (Resolve (snd entry) JSUndefined (rt\<lparr>timer_queue := remove1 entry (timer_queue rt)\<rparr>))"

definition TimerQueue_Run :: "int \<Rightarrow> Runtime \<Rightarrow> Runtime" where
  "TimerQueue_Run now rt = resolve_entries (due now (timer_queue rt)) rt"

text \<open>
  Modelled from the spec: of \<^verbatim>\<open>Runtime::OnFrame\<close> (runtime.cc is not among the sources) the
  step that asks the timer queue to resolve the entries whose deadline has passed; \<open>now\<close>
  is the clock at the frame.
\<close>

definition OnFrame :: "int \<Rightarrow> Runtime \<Rightarrow> Runtime" where
  "OnFrame now rt = TimerQueue_Run now rt"

fun frames :: "int list \<Rightarrow> Runtime \<Rightarrow> Runtime" where
  "frames [] rt = rt"
| "frames (now # later) rt = frames later (OnFrame now rt)"

text \<open>
  \<^verbatim>\<open>GlobalScope::Wait\<close> makes a promise and adds it to the timer queue; \<open>now\<close> is the
  clock at the call.
\<close>

definition Wait :: "int \<Rightarrow> 64 word \<Rightarrow> Runtime \<Rightarrow> js_value \<times> Runtime" where
  "Wait now time rt =
     (let promise = length (promises rt);
          rt1 = rt\<lparr>promises := promises rt @ [Pending]\<rparr>;
          rt2 = rt1\<lparr>timer_queue := TimerQueue_Add now promise (sint time) (timer_queue rt1)\<rparr>
      in (JSPromise promise, rt2))"

fun GetInt64 :: "js_value \<Rightarrow> 64 word" where
  "GetInt64 (JSNumber n) = n"
| "GetInt64 v = 0"

definition WaitCallback :: "int \<Rightarrow> js_value list \<Rightarrow> Runtime \<Rightarrow> callback_result" where
  "WaitCallback now arguments rt =
     (if length arguments = 0 then
        ThrowException
          ''unable to execute wait(): 1 argument required, but only 0 provided.'' (returned rt)
      else if \<not> IsNumber (arg arguments 0) then
        ThrowException
          ''unable to execute wait(): expected a number for argument 1.'' (returned rt)
      else
        (case Wait now (GetInt64 (arg arguments 0)) rt of
           (promise, rt') \<Rightarrow> (returned rt')\<lparr>return_value := promise\<rparr>))"

text \<open>The calls \<^verbatim>\<open>wait(d1)\<close>, \<^verbatim>\<open>wait(d2)\<close>, ... of a script at the instant \<open>now\<close>.\<close>

fun waits :: "int \<Rightarrow> 64 word list \<Rightarrow> Runtime \<Rightarrow> Runtime" where
  "waits now [] rt = rt"
| "waits now (d # ds) rt = waits now ds (runtime_after (WaitCallback now [JSNumber d] rt))"

section \<open>The other callbacks of the bridge (global\_callbacks.cc)\<close>

text \<open>
  The functions that \<^verbatim>\<open>InstallPrototypes\<close> installs on the global object from
  global\_callbacks.cc, by the names the script calls them.
\<close>

datatype native =
    addEventListener | atob | btoa | clearModuleCache | dispatchEvent | exec | frameCounter
  | flushExceptionQueue | getDeferredEvents | getRuntimeStatistics | glob | hasEventListener
  | highResolutionTime | hmac | isPlayerMinimized | killServer | notifyReady | pawnInvoke
  | provideNative | readFile | removeEventListener | reportTestsFinished | signMessage
  | startTrace | stopTrace | toggleMemoryLogging | verifyMessage | wait

text \<open>
  The callbacks below check their arguments as the source does. What a callback does once
  the checks have passed is the work of a collaborator that is not among the sources
  (base64 and the signatures of OpenSSL, the module cache, the file search, the
  subprocess, the native calls of the host, the delegate): it is the parameter \<open>body\<close>.
\<close>

type_synonym body = "js_value list \<Rightarrow> Runtime \<Rightarrow> callback_result"

















section \<open>Calling the bridge from a script\<close>

text \<open>
  What surrounds the runtime when a script calls the bridge: the scripts of the
  listeners, the clock, the files, whether \<^verbatim>\<open>pAMXFunctions\<close> is set, and the
  collaborators, one for each function of the bridge.
\<close>

record environment =
  listeners :: scripts
  clock :: int
  files :: "(string \<times> string) list"
  amx :: bool
  collaborators :: "native \<Rightarrow> body"




section \<open>The signatures of the bridge\<close>

text \<open>
  The comment above each callback gives its signature. \<open>required\<close> lists the types of the
  parameters that are not optional; for \<^verbatim>\<open>exec\<close> every further argument is a string
  too; \<^verbatim>\<open>provideNative\<close> and \<^verbatim>\<open>reportTestsFinished\<close> take exactly their parameters.
\<close>

datatype parameter = a_string | a_function | a_number | an_int32


fun required :: "native \<Rightarrow> parameter list" where
  "required addEventListener = [a_string, a_function]"
| "required atob = [a_string]"
| "required btoa = [a_string]"
| "required clearModuleCache = [a_string]"
| "required dispatchEvent = [a_string]"
| "required exec = [a_string]"
| "required glob = [a_string, a_string]"
| "required hasEventListener = [a_string]"
| "required hmac = [a_string, a_string]"
| "required isPlayerMinimized = [an_int32]"
| "required pawnInvoke = [a_string]"
| "required provideNative = [a_string, a_string, a_function]"
| "required readFile = [a_string]"
| "required removeEventListener = [a_string]"
| "required reportTestsFinished = [a_number, a_number]"
| "required signMessage = [a_string, a_string]"
| "required verifyMessage = [a_string, a_string, a_string]"
| "required wait = [a_number]"
| "required n = []"





section \<open>Observing the timers\<close>

text \<open>
  The timer queue is pending when its entries have different promises, all of them
  unresolved; a promise is settled when it is resolved with no value.
\<close>

definition pending_queue :: "Runtime \<Rightarrow> bool" where
  "pending_queue rt \<longleftrightarrow>
     distinct (map snd (timer_queue rt)) \<and>
     (\<forall>entry \<in> set (timer_queue rt).
        snd entry < length (promises rt) \<and> promises rt ! snd entry = Pending)"

definition settled :: "nat \<Rightarrow> Runtime \<Rightarrow> bool" where
  "settled promise rt \<longleftrightarrow>
     promise < length (promises rt) \<and> promises rt ! promise = Resolved JSUndefined"

section \<open>Observing the registry\<close>

text \<open>
  The listeners registered for a type, as \<^verbatim>\<open>DispatchEvent\<close> and \<^verbatim>\<open>HasEventListeners\<close>
  find them: the vector of its entry, and none when it has no entry.
\<close>

definition listeners_of :: "string \<Rightarrow> GlobalScope \<Rightarrow> v8_function list" where
  "listeners_of type g = (case map_of (event_listeners g) type of None \<Rightarrow> [] | Some v \<Rightarrow> v)"

text \<open>The calls \<^verbatim>\<open>addEventListener(type, f)\<close> of a script, one for each function of a list.\<close>

fun addEventListeners :: "string \<Rightarrow> handle list \<Rightarrow> Runtime \<Rightarrow> Runtime" where
  "addEventListeners type [] rt = rt"
| "addEventListeners type (f # fs) rt =
     addEventListeners type fs
       (runtime_after (AddEventListenerCallback [JSString type, JSFunction f] rt))"

section \<open>Observing the deferred events\<close>

text \<open>The calls of \<^verbatim>\<open>StoreDeferredEvent\<close> for a sequence of events, in order.\<close>

fun StoreDeferredEvents :: "(string \<times> Arguments) list \<Rightarrow> GlobalScope \<Rightarrow> GlobalScope" where
  "StoreDeferredEvents [] g = g"
| "StoreDeferredEvents ((type, arguments) # rest) g =
     StoreDeferredEvents rest (StoreDeferredEvent type arguments g)"

text \<open>
  The records of a sequence of entries: one for each entry whose type has a registered
  descriptor, in the order of the sequence.
\<close>

fun records :: "GlobalScope \<Rightarrow> (string \<times> Arguments) list \<Rightarrow> js_value list" where
  "records g [] = []"
| "records g ((type, arguments) # rest) =
     (case GetEvent type g of
        None \<Rightarrow> records g rest
      | Some event \<Rightarrow> deferred_record type event arguments # records g rest)"

text \<open>The entries of a sequence whose type has no registered descriptor.\<close>

definition unrecognized :: "GlobalScope \<Rightarrow> (string \<times> Arguments) list \<Rightarrow> (string \<times> Arguments) list" where
  "unrecognized g q = filter (\<lambda>entry. GetEvent (fst entry) g = None) q"

section \<open>Observing a dispatch\<close>

text \<open>
  An action keeps the listeners of a type when it neither adds nor removes a listener of
  that type.
\<close>

fun keeps :: "string \<Rightarrow> action \<Rightarrow> bool" where
  "keeps type (AddListener t f) = (t \<noteq> type)"
| "keeps type (RemoveListener t listener) = (t \<noteq> type)"
| "keeps type a = True"

text \<open>The functions of a vector of listeners, without the empty handles.\<close>

fun functions_of :: "v8_function list \<Rightarrow> handle list" where
  "functions_of [] = []"
| "functions_of (None # rest) = functions_of rest"
| "functions_of (Some f # rest) = f # functions_of rest"

text \<open>What a script throws, if it throws, and whether it prevents the default before.\<close>

fun thrown :: "action list \<Rightarrow> (string \<times> nat \<times> string) option" where
  "thrown [] = None"
| "thrown (Throw file line text # rest) = Some (file, line, text)"
| "thrown (a # rest) = thrown rest"

fun prevents :: "action list \<Rightarrow> bool" where
  "prevents [] = False"
| "prevents (Throw file line text # rest) = False"
| "prevents (PreventDefault # rest) = True"
| "prevents (a # rest) = prevents rest"

text \<open>The records the Exception Queue gets from the scripts of \<open>fs\<close> under a source tag.\<close>

fun captured :: "scripts \<Rightarrow> string \<Rightarrow> handle list \<Rightarrow> queued_message list" where
  "captured sc tag [] = []"
| "captured sc tag (f # fs) =
     (case thrown (sc f) of
        None \<Rightarrow> captured sc tag fs
      | Some (file, line, text) \<Rightarrow>
          \<lparr>msg_source = tag, msg_filename = file, msg_line = line, msg_text = text\<rparr> #
          captured sc tag fs)"

section \<open>Removing listeners\<close>

lemma RemoveEventListener_loop_filter:
  "RemoveEventListener_loop listener v i = take i v @ filter (\<lambda>f. f \<noteq> listener) (drop i v)"
proof (induction listener v i rule: RemoveEventListener_loop.induct)
  case (1 listener v i)
  show ?case
  proof (cases "i < length v")
    case False
    then show ?thesis
      by (subst RemoveEventListener_loop.simps) simp
  next
    case inside: True
    then have split: "drop i v = v ! i # drop (Suc i) v"
      by (simp add: Cons_nth_drop_Suc)
    show ?thesis
    proof (cases "listener = v ! i")
      case True
      have len: "i \<le> length v"
        using inside by simp
      have "RemoveEventListener_loop listener v i =
            RemoveEventListener_loop listener (vector_erase v i) i"
        using inside True by (subst RemoveEventListener_loop.simps) simp
      also have "\<dots> = take i (vector_erase v i) @
                       filter (\<lambda>f. f \<noteq> listener) (drop i (vector_erase v i))"
        using "1.IH"(1) inside True by simp
      also have "take i (vector_erase v i) = take i v"
        using len by (simp add: vector_erase_def min_def)
      also have "drop i (vector_erase v i) = drop (Suc i) v"
        using len by (simp add: vector_erase_def min_def)
      finally show ?thesis
        using True by (simp add: split)
    next
      case False
      have "RemoveEventListener_loop listener v i =
            RemoveEventListener_loop listener v (Suc i)"
        using inside False by (subst RemoveEventListener_loop.simps) simp
      also have "\<dots> = take (Suc i) v @ filter (\<lambda>f. f \<noteq> listener) (drop (Suc i) v)"
        using "1.IH"(2) inside False by simp
      finally show ?thesis
        using inside False by (simp add: split take_Suc_conv_app_nth)
    qed
  qed
qed


lemma listeners_of_RemoveEventListener_None:
  "listeners_of type (RemoveEventListener type None g) = []"
  by (simp add: listeners_of_def RemoveEventListener_def AList.delete_conv' split: option.splits)

lemma listeners_of_RemoveEventListener_Some:
  "listeners_of type (RemoveEventListener type (Some a) g) =
     filter (\<lambda>f. f \<noteq> Some a) (listeners_of type g)"
  by (simp add: listeners_of_def RemoveEventListener_def AList.update_conv'
      RemoveEventListener_loop_filter split: option.splits)

lemma listeners_of_RemoveEventListener_other:
  "type' \<noteq> type \<Longrightarrow>
     listeners_of type' (RemoveEventListener type listener g) = listeners_of type' g"
  by (simp add: listeners_of_def RemoveEventListener_def AList.update_conv' AList.delete_conv'
      split: option.splits)

text \<open>
  C6: \<^verbatim>\<open>RemoveEventListener(T)\<close> without a handler removes every listener registered for
  \<open>T\<close>, however many there are; \<^verbatim>\<open>RemoveEventListener(T, A)\<close> removes every occurrence of
  \<open>A\<close> from the list of \<open>T\<close> and leaves the other handlers registered in their original
  order. The same holds for \<^verbatim>\<open>removeEventListener\<close> called from a script.
\<close>

theorem RemoveEventListener_all_or_each:
  "listeners_of type (RemoveEventListener type None g) = [] \<and>
   \<not> HasEventListeners type (RemoveEventListener type None g) \<and>
   listeners_of type (RemoveEventListener type (Some a) g) =
     filter (\<lambda>f. f \<noteq> Some a) (listeners_of type g) \<and>
   listeners_of type
     (global_scope (runtime_after (RemoveEventListenerCallback [JSString type] rt))) = [] \<and>
   listeners_of type
     (global_scope (runtime_after (RemoveEventListenerCallback [JSString type, JSFunction a] rt))) =
     filter (\<lambda>f. f \<noteq> Some a) (listeners_of type (global_scope rt))"
proof -
  have "\<not> HasEventListeners type (RemoveEventListener type None g)"
    using listeners_of_RemoveEventListener_None [of type g]
    by (simp add: HasEventListeners_def listeners_of_def split: option.splits)
  moreover have "listeners_of type
     (global_scope (runtime_after (RemoveEventListenerCallback [JSString type] rt))) = []"
    by (simp add: RemoveEventListenerCallback_def arg_def returned_def
        listeners_of_RemoveEventListener_None)
  moreover have "listeners_of type
     (global_scope (runtime_after (RemoveEventListenerCallback [JSString type, JSFunction a] rt))) =
     filter (\<lambda>f. f \<noteq> Some a) (listeners_of type (global_scope rt))"
    by (simp add: RemoveEventListenerCallback_def arg_def returned_def
        listeners_of_RemoveEventListener_Some)
  ultimately show ?thesis
    by (simp add: listeners_of_RemoveEventListener_None listeners_of_RemoveEventListener_Some)
qed

section \<open>Verifying that no listeners are left\<close>

lemma VerifyNoEventHandlersLeft_loop_eq:
  "VerifyNoEventHandlersLeft_loop m (warnings, out) =
     (warnings + length (filter (\<lambda>entry. snd entry \<noteq> []) m),
      out @ map (\<lambda>entry. StillHasListeners (fst entry) (length (snd entry)))
              (filter (\<lambda>entry. snd entry \<noteq> []) m))"
  by (induction m arbitrary: warnings out) (auto simp: Let_def)

text \<open>
  C7: \<^verbatim>\<open>VerifyNoEventHandlersLeft\<close> clears the listener map if and only if every type has
  zero remaining listeners; when a type still has a listener, it logs a warning for each
  such type and leaves the whole map unchanged.
\<close>

theorem VerifyNoEventHandlersLeft_clears_iff_none_left:
  "VerifyNoEventHandlersLeft g =
     (if \<forall>entry \<in> set (event_listeners g). snd entry = [] then ([], g\<lparr>event_listeners := []\<rparr>)
      else (map (\<lambda>entry. StillHasListeners (fst entry) (length (snd entry)))
              (filter (\<lambda>entry. snd entry \<noteq> []) (event_listeners g)) @ [NotClearingMap], g)) \<and>
   (event_listeners (snd (VerifyNoEventHandlersLeft g)) = [] \<longleftrightarrow>
      (\<forall>entry \<in> set (event_listeners g). snd entry = []))"
proof (cases "\<forall>entry \<in> set (event_listeners g). snd entry = []")
  case True
  then have "filter (\<lambda>entry. snd entry \<noteq> []) (event_listeners g) = []"
    by (simp add: filter_empty_conv)
  then show ?thesis
    using True by (simp add: VerifyNoEventHandlersLeft_def VerifyNoEventHandlersLeft_loop_eq)
next
  case False
  then have ne: "filter (\<lambda>entry. snd entry \<noteq> []) (event_listeners g) \<noteq> []"
    by (simp add: filter_empty_conv)
  have "event_listeners g \<noteq> []"
    using False by auto
  then show ?thesis
    using False ne by (simp add: VerifyNoEventHandlersLeft_def VerifyNoEventHandlersLeft_loop_eq)
qed

section \<open>What a call and a dispatch change\<close>

lemma map_of_subscript:
  "map_of (subscript m type) =
     (case map_of m type of None \<Rightarrow> (map_of m)(type \<mapsto> []) | Some v \<Rightarrow> map_of m)"
  by (auto simp: subscript_def map_add_def fun_eq_iff split: option.splits)

lemma listeners_of_AddEventListener:
  "listeners_of type (AddEventListener type listener g) = listeners_of type g @ [listener]"
  by (simp add: listeners_of_def AddEventListener_def AList.map_of_map_entry map_of_subscript
      split: option.splits)

lemma map_of_AddEventListener_other:
  "t \<noteq> type \<Longrightarrow>
     map_of (event_listeners (AddEventListener t listener g)) type =
     map_of (event_listeners g) type"
  by (simp add: AddEventListener_def AList.map_of_map_entry map_of_subscript
      split: option.splits)

lemma map_of_RemoveEventListener_other:
  "t \<noteq> type \<Longrightarrow>
     map_of (event_listeners (RemoveEventListener t listener g)) type =
     map_of (event_listeners g) type"
  by (simp add: RemoveEventListener_def AList.update_conv' AList.delete_conv'
      split: option.splits)

lemma run_touched:
  "list_all (keeps type) acts \<Longrightarrow> type \<notin> set touched \<Longrightarrow>
     type \<notin> set (snd (snd (run acts (event, rt, touched))))"
  by (induction acts "(event, rt, touched)" arbitrary: event rt touched rule: run.induct) auto

lemma run_listeners:
  "list_all (keeps type) acts \<Longrightarrow>
     map_of (event_listeners (global_scope (fst (snd (run acts (event, rt, touched)))))) type =
     map_of (event_listeners (global_scope rt)) type"
  by (induction acts "(event, rt, touched)" arbitrary: event rt touched rule: run.induct)
    (auto simp: map_of_AddEventListener_other map_of_RemoveEventListener_other)

lemma run_calls:
  "calls (fst (snd (run acts (event, rt, touched)))) = calls rt"
  by (induction acts "(event, rt, touched)" arbitrary: event rt touched rule: run.induct) auto

lemma run_logged:
  "logged (fst (snd (run acts (event, rt, touched)))) = logged rt"
  by (induction acts "(event, rt, touched)" arbitrary: event rt touched rule: run.induct) auto

lemma run_source_stack:
  "source_stack (exception_handler (fst (snd (run acts (event, rt, touched))))) =
     source_stack (exception_handler rt)"
  by (induction acts "(event, rt, touched)" arbitrary: event rt touched rule: run.induct)
    (auto simp: capture_def)

lemma run_message_queue:
  "message_queue (exception_handler (fst (snd (run acts (event, rt, touched))))) =
     message_queue (exception_handler rt) @
     (case thrown acts of
        None \<Rightarrow> []
      | Some (file, line, text) \<Rightarrow>
          [\<lparr>msg_source = current_source (exception_handler rt),
            msg_filename = file, msg_line = line, msg_text = text\<rparr>])"
  by (induction acts "(event, rt, touched)" arbitrary: event rt touched rule: run.induct)
    (auto simp: capture_def split: option.splits)

lemma run_event:
  "fst (run acts (event, rt, touched)) = (if prevents acts then preventDefault event else event)"
  apply (induction acts "(event, rt, touched)" arbitrary: event rt touched rule: run.induct)
  apply auto
  subgoal for rest event by (cases event) auto
  done


lemma DispatchEvent_loop_keeps:
  assumes "\<forall>f \<in> set (functions_of v). list_all (keeps type) (sc f)"
  shows "\<exists>event' rt'.
           DispatchEvent_loop sc type v (event, rt) = Inr (event', rt') \<and>
           map fst (calls rt') = map fst (calls rt) @ functions_of v \<and>
           message_queue (exception_handler rt') =
             message_queue (exception_handler rt) @
             captured sc (current_source (exception_handler rt)) (functions_of v) \<and>
           source_stack (exception_handler rt') = source_stack (exception_handler rt) \<and>
           map_of (event_listeners (global_scope rt')) type =
             map_of (event_listeners (global_scope rt)) type \<and>
           event' = (if \<exists>f \<in> set (functions_of v). prevents (sc f) then preventDefault event
                     else event)"
  using assms
proof (induction v arbitrary: event rt)
  case Nil
  then show ?case by simp
next
  case (Cons p v)
  show ?case
  proof (cases p)
    case None
    from Cons.prems have "\<forall>f \<in> set (functions_of v). list_all (keeps type) (sc f)"
      using None by simp
    from Cons.IH [OF this, of event "rt\<lparr>logged := logged rt @ [EmptyFunctionFound type]\<rparr>"]
    show ?thesis
      using None by (simp add: current_source_def)
  next
    case (Some f)
    obtain e1 r1 t1 where call: "Call sc f event rt = (e1, r1, t1)"
      by (cases "Call sc f event rt") auto
    have quiet: "list_all (keeps type) (sc f)"
      using Cons.prems Some by simp
    have rest: "\<forall>f \<in> set (functions_of v). list_all (keeps type) (sc f)"
      using Cons.prems Some by simp
    have t1: "type \<notin> set t1"
      using run_touched [OF quiet, of "[]" event "rt\<lparr>calls := calls rt @ [(f, event)]\<rparr>"] call
      by (simp add: Call_def)
    have c1: "calls r1 = calls rt @ [(f, event)]"
      using run_calls [of "sc f" event "rt\<lparr>calls := calls rt @ [(f, event)]\<rparr>" "[]"] call
      by (simp add: Call_def)
    have q1: "message_queue (exception_handler r1) =
        message_queue (exception_handler rt) @
        captured sc (current_source (exception_handler rt)) [f]"
      using run_message_queue [of "sc f" event "rt\<lparr>calls := calls rt @ [(f, event)]\<rparr>" "[]"] call
      by (simp add: Call_def split: option.splits)
    have s1: "source_stack (exception_handler r1) = source_stack (exception_handler rt)"
      using run_source_stack [of "sc f" event "rt\<lparr>calls := calls rt @ [(f, event)]\<rparr>" "[]"] call
      by (simp add: Call_def)
    have l1: "map_of (event_listeners (global_scope r1)) type =
        map_of (event_listeners (global_scope rt)) type"
      using run_listeners [OF quiet, of event "rt\<lparr>calls := calls rt @ [(f, event)]\<rparr>" "[]"] call
      by (simp add: Call_def)
    have e1: "e1 = (if prevents (sc f) then preventDefault event else event)"
      using run_event [of "sc f" event "rt\<lparr>calls := calls rt @ [(f, event)]\<rparr>" "[]"] call
      by (simp add: Call_def)
    have idem: "preventDefault (preventDefault event) = preventDefault event"
      by (cases event) auto
    from Cons.IH [OF rest, of e1 r1] obtain event' rt' where
      loop: "DispatchEvent_loop sc type v (e1, r1) = Inr (event', rt')" and
      calls': "map fst (calls rt') = map fst (calls r1) @ functions_of v" and
      queue': "message_queue (exception_handler rt') =
             message_queue (exception_handler r1) @
             captured sc (current_source (exception_handler r1)) (functions_of v)" and
      stack': "source_stack (exception_handler rt') = source_stack (exception_handler r1)" and
      listeners': "map_of (event_listeners (global_scope rt')) type =
             map_of (event_listeners (global_scope r1)) type" and
      event': "event' = (if \<exists>f \<in> set (functions_of v). prevents (sc f) then preventDefault e1
                     else e1)"
      by blast
    have "DispatchEvent_loop sc type (p # v) (event, rt) = Inr (event', rt')"
      using Some call t1 loop by (simp add: Local_New_def)
    moreover have "map fst (calls rt') = map fst (calls rt) @ functions_of (p # v)"
      using calls' c1 Some by simp
    moreover have "message_queue (exception_handler rt') =
             message_queue (exception_handler rt) @
             captured sc (current_source (exception_handler rt)) (functions_of (p # v))"
      using queue' q1 s1 Some by (simp add: current_source_def split: option.splits)
    moreover have "event' = (if \<exists>f \<in> set (functions_of (p # v)). prevents (sc f)
                     then preventDefault event else event)"
      using event' e1 Some idem by auto
    ultimately show ?thesis
      using stack' s1 listeners' l1 by simp
  qed
qed

lemma AddEventListenerCallback_valid:
  "AddEventListenerCallback [JSString type, JSFunction f] rt =
     returned (rt\<lparr>global_scope := AddEventListener type (Some f) (global_scope rt)\<rparr>)"
  by (simp add: AddEventListenerCallback_def arg_def)

lemma listeners_of_addEventListeners:
  "listeners_of type (global_scope (addEventListeners type fs rt)) =
     listeners_of type (global_scope rt) @ map Some fs"
  by (induction fs arbitrary: rt)
    (simp_all add: AddEventListenerCallback_valid returned_def listeners_of_AddEventListener)

lemma DispatchEvent_keeps:
  assumes "\<forall>f \<in> set (functions_of (listeners_of type (global_scope rt))). list_all (keeps type) (sc f)"
  shows "\<exists>prevented event' rt'.
           DispatchEvent sc type event rt = Inr (prevented, event', rt') \<and>
           map fst (calls rt') =
             map fst (calls rt) @ functions_of (listeners_of type (global_scope rt)) \<and>
           message_queue (exception_handler rt') =
             message_queue (exception_handler rt) @
             captured sc (''dispatched event `'' @ type @ ''`'')
               (functions_of (listeners_of type (global_scope rt))) \<and>
           source_stack (exception_handler rt') = source_stack (exception_handler rt)"
proof (cases "map_of (event_listeners (global_scope rt)) type")
  case None
  then show ?thesis
    by (auto simp: DispatchEvent_def listeners_of_def)
next
  case (Some v)
  then have v: "listeners_of type (global_scope rt) = v"
    by (simp add: listeners_of_def)
  let ?tag = "''dispatched event `'' @ type @ ''`''"
  let ?rt = "rt\<lparr>exception_handler := enter_source ?tag (exception_handler rt)\<rparr>"
  from DispatchEvent_loop_keeps [of v type sc event ?rt] assms v
  obtain event' rt' where
    loop: "DispatchEvent_loop sc type v (event, ?rt) = Inr (event', rt')" and
    calls': "map fst (calls rt') = map fst (calls ?rt) @ functions_of v" and
    queue': "message_queue (exception_handler rt') =
             message_queue (exception_handler ?rt) @
             captured sc (current_source (exception_handler ?rt)) (functions_of v)" and
    stack': "source_stack (exception_handler rt') = source_stack (exception_handler ?rt)"
    by blast
  have "DispatchEvent sc type event rt =
      Inr (DefaultPrevented event', event',
           rt'\<lparr>exception_handler := leave_source (exception_handler rt')\<rparr>)"
    using Some loop by (simp add: DispatchEvent_def)
  then show ?thesis
    using calls' queue' stack' v
    by (simp add: enter_source_def leave_source_def current_source_def)
qed

text \<open>
  C5: \<^verbatim>\<open>addEventListener\<close> appends to the list of the type and does not de-duplicate:
  after the listeners \<open>A\<close>, \<open>B\<close>, \<open>A\<close> are added for a type \<open>T\<close> that had none,
  \<^verbatim>\<open>dispatchEvent(T, ev)\<close> calls \<open>A\<close>, \<open>B\<close>, \<open>A\<close> in that order, each occurrence once.
  The listeners are taken not to add or remove listeners of \<open>T\<close> while they run.
\<close>

theorem dispatchEvent_calls_A_B_A:
  assumes "listeners_of type (global_scope rt) = []"
    and "list_all (keeps type) (sc a)"
    and "list_all (keeps type) (sc b)"
  shows "listeners_of type (AddEventListener type listener g) =
           listeners_of type g @ [listener] \<and>
         listeners_of type (global_scope (addEventListeners type [a, b, a] rt)) =
           [Some a, Some b, Some a] \<and>
         (\<exists>r. DispatchEventCallback sc [JSString type, event]
                 (addEventListeners type [a, b, a] rt) = Inr r \<and>
              map fst (calls (runtime_after r)) = map fst (calls rt) @ [a, b, a])"
proof -
  let ?rt = "addEventListeners type [a, b, a] rt"
  have l: "listeners_of type (global_scope ?rt) = [Some a, Some b, Some a]"
    using listeners_of_addEventListeners [of type "[a, b, a]" rt] assms(1) by simp
  have c: "calls ?rt = calls rt"
    by (simp add: AddEventListenerCallback_valid returned_def)
  have "\<forall>f \<in> set (functions_of (listeners_of type (global_scope ?rt))). list_all (keeps type) (sc f)"
    using assms(2,3) by (simp only: l) simp
  from DispatchEvent_keeps [OF this, of event]
  obtain prevented event' rt' where
    d: "DispatchEvent sc type event ?rt = Inr (prevented, event', rt')" and
    calls': "map fst (calls rt') =
             map fst (calls ?rt) @ functions_of (listeners_of type (global_scope ?rt))"
    by blast
  have "DispatchEventCallback sc [JSString type, event] ?rt = Inr (returned rt')"
    using d by (simp add: DispatchEventCallback_def arg_def)
  moreover have "map fst (calls (runtime_after (returned rt'))) = map fst (calls rt) @ [a, b, a]"
    using calls' by (simp only: l c) (simp add: returned_def)
  ultimately show ?thesis
    using l by (simp only: listeners_of_AddEventListener) blast
qed

text \<open>
  C8: during a dispatch, the exception a listener throws is captured by the Exception
  Queue under the source tag that names the dispatched type, and every listener of the
  list is still called, in order: a listener that throws does not end the dispatch. The
  listeners are taken not to add or remove listeners of the type while they run.
\<close>

theorem throwing_listener_does_not_abort_dispatch:
  assumes "\<forall>f \<in> set (functions_of (listeners_of type (global_scope rt))). list_all (keeps type) (sc f)"
  shows "\<exists>prevented event' rt'.
           DispatchEvent sc type event rt = Inr (prevented, event', rt') \<and>
           map fst (calls rt') =
             map fst (calls rt) @ functions_of (listeners_of type (global_scope rt)) \<and>
           message_queue (exception_handler rt') =
             message_queue (exception_handler rt) @
             captured sc (''dispatched event `'' @ type @ ''`'')
               (functions_of (listeners_of type (global_scope rt)))"
  using DispatchEvent_keeps [OF assms, of event] by blast

section \<open>Draining the deferred events\<close>

lemma length_records:
  "length (records g q) + length (unrecognized g q) = length q"
  by (induction g q rule: records.induct) (auto simp: unrecognized_def split: option.splits)

lemma GetDeferredEventsCallback_loop_eq:
  "index + length (records g q) \<le> length array \<Longrightarrow>
     GetDeferredEventsCallback_loop g q (array, index, out) =
       (take index array @ map Some (records g q) @ drop (index + length (records g q)) array,
        index + length (records g q),
        out @ map (\<lambda>entry. UnrecognizedEventName (fst entry)) (unrecognized g q))"
proof (induction q arbitrary: array index out)
  case Nil
  then show ?case by (simp add: unrecognized_def)
next
  case (Cons entry rest)
  obtain type arguments where entry: "entry = (type, arguments)"
    by (cases entry) auto
  show ?case
  proof (cases "GetEvent type g")
    case None
    then show ?thesis
      using Cons entry by (simp add: unrecognized_def)
  next
    case (Some event)
    let ?r = "deferred_record type event arguments"
    have inside: "index < length array"
      using Cons.prems Some entry by simp
    have set: "array_Set array index ?r = array[index := Some ?r]"
      using inside by (simp add: array_Set_def)
    have bound: "(index + 1) + length (records g rest) \<le> length (array[index := Some ?r])"
      using Cons.prems Some entry by simp
    have "GetDeferredEventsCallback_loop g (entry # rest) (array, index, out) =
          GetDeferredEventsCallback_loop g rest (array[index := Some ?r], index + 1, out)"
      using Some set entry by simp
    also have "\<dots> =
       (take (index + 1) (array[index := Some ?r]) @ map Some (records g rest) @
          drop (index + 1 + length (records g rest)) (array[index := Some ?r]),
        index + 1 + length (records g rest),
        out @ map (\<lambda>entry. UnrecognizedEventName (fst entry)) (unrecognized g rest))"
      using Cons.IH [OF bound] by simp
    also have "take (index + 1) (array[index := Some ?r]) = take index array @ [Some ?r]"
      using inside by (simp add: take_Suc_conv_app_nth)
    also have "drop (index + 1 + length (records g rest)) (array[index := Some ?r]) =
               drop (index + 1 + length (records g rest)) array"
      by simp
    finally show ?thesis
      using Some entry by (simp add: unrecognized_def)
  qed
qed

lemma GetDeferredEventsCallback_eq:
  "GetDeferredEventsCallback arguments rt =
     \<lparr>runtime_after =
        rt\<lparr>global_scope := (global_scope rt)\<lparr>deferred_events := []\<rparr>,
           logged := logged rt @
             map (\<lambda>entry. UnrecognizedEventName (fst entry))
               (unrecognized (global_scope rt) (deferred_events (global_scope rt)))\<rparr>,
      return_value =
        JSArray (map Some (records (global_scope rt) (deferred_events (global_scope rt))) @
                 replicate (length (unrecognized (global_scope rt) (deferred_events (global_scope rt)))) None),
      exception = None\<rparr>"
proof -
  let ?g = "global_scope rt"
  let ?q = "deferred_events ?g"
  have le: "0 + length (records ?g ?q) \<le> length (replicate (length ?q) (None :: js_value option))"
    using length_records [of ?g ?q] by simp
  have n: "length ?q - length (records ?g ?q) = length (unrecognized ?g ?q)"
    using length_records [of ?g ?q] by simp
  show ?thesis
    unfolding GetDeferredEventsCallback_def Let_def
    by (simp only: GetDeferredEventsCallback_loop_eq [OF le])
      (simp add: returned_def n)
qed

text \<open>
  C10: the array that \<^verbatim>\<open>getDeferredEvents\<close> returns has as many indices as there are
  stored deferred entries, with the entries whose type has no registered descriptor
  counted. When such entries are dropped, the records fill the front of the array and the
  indices behind them stay unset: the array is not shortened.
\<close>

theorem getDeferredEvents_array_keeps_length:
  "\<exists>array.
     return_value (GetDeferredEventsCallback arguments rt) = JSArray array \<and>
     length array = length (deferred_events (global_scope rt)) \<and>
     array =
       map Some (records (global_scope rt) (deferred_events (global_scope rt))) @
       replicate (length (unrecognized (global_scope rt) (deferred_events (global_scope rt)))) None"
  using length_records [of "global_scope rt" "deferred_events (global_scope rt)"]
  by (simp add: GetDeferredEventsCallback_eq)














theorem getDeferredEvents_array_keeps_length_witness:
  "\<exists>array.
     return_value
       (GetDeferredEventsCallback []
          (Create\<lparr>global_scope :=
             StoreDeferredEvents [(''chat'', []), (''quit'', [])]
               (RegisterEvent ''quit'' (Event ''Quit'') GlobalScope_new)\<rparr>)) = JSArray array \<and>
     length array = 2 \<and>
     array = [Some (JSObject [(''type'', JSString ''quit''), (''event'', JSEvent ''Quit'' [] False)]),
              None]"
  using getDeferredEvents_array_keeps_length [where arguments = "[]" and rt =
      "Create\<lparr>global_scope :=
             StoreDeferredEvents [(''chat'', []), (''quit'', [])]
               (RegisterEvent ''quit'' (Event ''Quit'') GlobalScope_new)\<rparr>"]
  by (simp add: RegisterEvent_def GlobalScope_new_def GetEvent_def deferred_record_def
      v8String_def c_str_def unrecognized_def StoreDeferredEvent_def less_char_def)

section \<open>Stable sorting and removal\<close>

lemma sort_key_split:
  fixes f :: "'a \<Rightarrow> int"
  shows "sort_key f xs =
     sort_key f (filter (\<lambda>x. f x \<le> t) xs) @ sort_key f (filter (\<lambda>x. \<not> f x \<le> t) xs)"
proof (rule properties_for_sort_key)
  show "mset (sort_key f (filter (\<lambda>x. f x \<le> t) xs) @
              sort_key f (filter (\<lambda>x. \<not> f x \<le> t) xs)) = mset xs"
    by simp
next
  fix k
  have "filter (\<lambda>x. f k = f x) (sort_key f ys) = filter (\<lambda>x. f k = f x) ys" for ys
    using sort_key_stable [of f "f k" ys] by (simp add: eq_commute)
  then have "filter (\<lambda>x. f k = f x)
          (sort_key f (filter (\<lambda>x. f x \<le> t) xs) @ sort_key f (filter (\<lambda>x. \<not> f x \<le> t) xs)) =
        filter (\<lambda>x. f k = f x) (filter (\<lambda>x. f x \<le> t) xs) @
        filter (\<lambda>x. f k = f x) (filter (\<lambda>x. \<not> f x \<le> t) xs)"
    by simp
  also have "\<dots> = filter (\<lambda>x. f k = f x) xs"
  proof (cases "f k \<le> t")
    case True
    then have "filter (\<lambda>x. f k = f x) (filter (\<lambda>x. \<not> f x \<le> t) xs) = []"
      by (auto simp: filter_empty_conv)
    moreover have "filter (\<lambda>x. f k = f x) (filter (\<lambda>x. f x \<le> t) xs) = filter (\<lambda>x. f k = f x) xs"
      using True by (auto intro: filter_cong)
    ultimately show ?thesis by simp
  next
    case False
    then have "filter (\<lambda>x. f k = f x) (filter (\<lambda>x. f x \<le> t) xs) = []"
      by (auto simp: filter_empty_conv)
    moreover have "filter (\<lambda>x. f k = f x) (filter (\<lambda>x. \<not> f x \<le> t) xs) = filter (\<lambda>x. f k = f x) xs"
      using False by (auto intro: filter_cong)
    ultimately show ?thesis by simp
  qed
  finally show "filter (\<lambda>x. f k = f x)
          (sort_key f (filter (\<lambda>x. f x \<le> t) xs) @ sort_key f (filter (\<lambda>x. \<not> f x \<le> t) xs)) =
        filter (\<lambda>x. f k = f x) xs" .
next
  show "sorted (map f (sort_key f (filter (\<lambda>x. f x \<le> t) xs) @
                       sort_key f (filter (\<lambda>x. \<not> f x \<le> t) xs)))"
    by (auto simp: sorted_append)
qed

lemma insort_key_cong_order:
  "(\<And>x y. f x \<le> f y \<longleftrightarrow> g x \<le> g y) \<Longrightarrow> insort_key f x xs = insort_key g x xs"
  by (induction xs) auto

lemma sort_key_cong_order:
  "(\<And>x y. f x \<le> f y \<longleftrightarrow> g x \<le> g y) \<Longrightarrow> sort_key f xs = sort_key g xs"
  by (induction xs) (auto simp: insort_key_cong_order [of f g])

lemma insort_key_map:
  "insort_key f (h x) (map h xs) = map h (insort_key (\<lambda>x. f (h x)) x xs)"
  by (induction xs) auto

lemma sort_key_map:
  "sort_key f (map h xs) = map h (sort_key (\<lambda>x. f (h x)) xs)"
  by (induction xs) (auto simp: insort_key_map)


lemma fold_remove1_filter:
  "mset es = mset (filter P q) \<Longrightarrow> foldl (\<lambda>q e. remove1 e q) q es = filter (\<lambda>e. \<not> P e) q"
proof (induction es arbitrary: q)
  case Nil
  then have "filter P q = []"
    by simp
  then show ?case
    by (auto simp: filter_empty_conv intro: filter_True [symmetric])
next
  case (Cons e es)
  have e: "e \<in> set (filter P q)"
    using Cons.prems by (metis list.set_intros(1) mset_eq_setD)
  then have Pe: "P e" and eq: "e \<in> set q"
    by auto
  have "mset (filter P (remove1 e q)) = mset (filter P q) - {#e#}"
    using Pe by (simp add: filter_remove1)
  also have "\<dots> = mset es"
    using Cons.prems [symmetric] by simp
  finally have "foldl (\<lambda>q e. remove1 e q) (remove1 e q) es = filter (\<lambda>e. \<not> P e) (remove1 e q)"
    using Cons.IH [of "remove1 e q"] by simp
  also have "\<dots> = remove1 e (filter (\<lambda>e. \<not> P e) q)"
    by (simp add: filter_remove1)
  also have "\<dots> = filter (\<lambda>e. \<not> P e) q"
    using Pe by (simp add: remove1_idem)
  finally show ?case
    by simp
qed

section \<open>Waiting\<close>

lemma Resolve_other_fields:
  "timer_queue (Resolve p v r) = timer_queue r"
  "length (promises (Resolve p v r)) = length (promises r)"
  by (simp_all add: Resolve_def)

lemma Resolve_pending:
  "p < length (promises r) \<Longrightarrow> promises r ! p = Pending \<Longrightarrow>
     resolutions (Resolve p v r) = resolutions r @ [(p, v)] \<and>
     promises (Resolve p v r) = (promises r)[p := Resolved v]"
  by (simp add: Resolve_def)

lemma resolve_entries_timer_queue:
  "timer_queue (resolve_entries es r) = foldl (\<lambda>q e. remove1 e q) (timer_queue r) es"
  by (induction es arbitrary: r) (simp_all add: Resolve_other_fields)

lemma resolve_entries_length:
  "length (promises (resolve_entries es r)) = length (promises r)"
  by (induction es arbitrary: r) (simp_all add: Resolve_other_fields)

lemma resolve_entries_pending:
  assumes "distinct (map snd es)"
    and "\<forall>e \<in> set es. snd e < length (promises r) \<and> promises r ! snd e = Pending"
  shows "resolutions (resolve_entries es r) =
           resolutions r @ map (\<lambda>e. (snd e, JSUndefined)) es \<and>
         (\<forall>p. p \<notin> snd ` set es \<longrightarrow> promises (resolve_entries es r) ! p = promises r ! p) \<and>
         (\<forall>p \<in> snd ` set es. promises (resolve_entries es r) ! p = Resolved JSUndefined)"
  using assms
proof (induction es arbitrary: r)
  case Nil
  then show ?case by simp
next
  case (Cons e es)
  let ?r = "Resolve (snd e) JSUndefined (r\<lparr>timer_queue := remove1 e (timer_queue r)\<rparr>)"
  have p: "snd e < length (promises r)" "promises r ! snd e = Pending"
    using Cons.prems(2) by simp_all
  have res: "resolutions ?r = resolutions r @ [(snd e, JSUndefined)]"
    and prom: "promises ?r = (promises r)[snd e := Resolved JSUndefined]"
    using Resolve_pending [of "snd e" "r\<lparr>timer_queue := remove1 e (timer_queue r)\<rparr>" JSUndefined] p
    by simp_all
  have d: "distinct (map snd es)" and notin: "snd e \<notin> snd ` set es"
    using Cons.prems(1) by simp_all
  have pend: "\<forall>e' \<in> set es. snd e' < length (promises ?r) \<and> promises ?r ! snd e' = Pending"
  proof
    fix e' assume e': "e' \<in> set es"
    then have "snd e' \<noteq> snd e"
      using notin by (metis image_eqI)
    then show "snd e' < length (promises ?r) \<and> promises ?r ! snd e' = Pending"
      using Cons.prems(2) e' by (simp add: prom)
  qed
  from Cons.IH [OF d pend]
  have ih1: "resolutions (resolve_entries es ?r) =
           resolutions ?r @ map (\<lambda>e. (snd e, JSUndefined)) es"
    and ih2: "\<forall>p. p \<notin> snd ` set es \<longrightarrow> promises (resolve_entries es ?r) ! p = promises ?r ! p"
    and ih3: "\<forall>p \<in> snd ` set es. promises (resolve_entries es ?r) ! p = Resolved JSUndefined"
    by blast+
  have "resolutions (resolve_entries (e # es) r) =
           resolutions r @ map (\<lambda>e. (snd e, JSUndefined)) (e # es)"
    using ih1 res by simp
  moreover have "\<forall>p. p \<notin> snd ` set (e # es) \<longrightarrow>
      promises (resolve_entries (e # es) r) ! p = promises r ! p"
    using ih2 prom by simp
  moreover have "\<forall>p \<in> snd ` set (e # es). promises (resolve_entries (e # es) r) ! p = Resolved JSUndefined"
    using ih2 ih3 prom p notin by auto
  ultimately show ?case
    by blast
qed

lemma due_facts:
  "mset (due now q) = mset (filter (\<lambda>e. fst e \<le> now) q)"
  "set (due now q) = {e \<in> set q. fst e \<le> now}"
  by (simp_all add: due_def)

lemma distinct_due:
  assumes "distinct (map snd q)"
  shows "distinct (map snd (due now q))"
proof -
  have "mset (map snd (due now q)) = mset (map snd (filter (\<lambda>e. fst e \<le> now) q))"
    by (simp add: due_def)
  moreover have "distinct (map snd (filter (\<lambda>e. fst e \<le> now) q))"
    using assms by (rule distinct_map_filter)
  ultimately show ?thesis
    by (metis mset_eq_imp_distinct_iff)
qed

lemma TimerQueue_Run_pending:
  assumes "pending_queue r"
  shows "resolutions (TimerQueue_Run now r) =
           resolutions r @ map (\<lambda>e. (snd e, JSUndefined)) (due now (timer_queue r))"
    and "timer_queue (TimerQueue_Run now r) = filter (\<lambda>e. \<not> fst e \<le> now) (timer_queue r)"
    and "pending_queue (TimerQueue_Run now r)"
    and "\<And>e. e \<in> set (timer_queue r) \<Longrightarrow> fst e \<le> now \<Longrightarrow> settled (snd e) (TimerQueue_Run now r)"
    and "\<And>p. settled p r \<Longrightarrow> settled p (TimerQueue_Run now r)"
proof -
  let ?es = "due now (timer_queue r)"
  have d: "distinct (map snd ?es)"
    using assms by (simp add: pending_queue_def distinct_due)
  have pend: "\<forall>e \<in> set ?es. snd e < length (promises r) \<and> promises r ! snd e = Pending"
    using assms by (simp add: pending_queue_def due_facts)
  note facts = resolve_entries_pending [OF d pend]
  show "resolutions (TimerQueue_Run now r) =
           resolutions r @ map (\<lambda>e. (snd e, JSUndefined)) ?es"
    using facts by (simp add: TimerQueue_Run_def)
  show q: "timer_queue (TimerQueue_Run now r) = filter (\<lambda>e. \<not> fst e \<le> now) (timer_queue r)"
    using fold_remove1_filter [OF due_facts(1) [of now "timer_queue r"]]
    by (simp add: TimerQueue_Run_def resolve_entries_timer_queue)
  have len: "length (promises (TimerQueue_Run now r)) = length (promises r)"
    by (simp add: TimerQueue_Run_def resolve_entries_length)
  show "pending_queue (TimerQueue_Run now r)"
    unfolding pending_queue_def q
  proof (intro conjI ballI)
    show "distinct (map snd (filter (\<lambda>e. \<not> fst e \<le> now) (timer_queue r)))"
      using assms by (simp add: pending_queue_def distinct_map_filter)
  next
    fix e assume e: "e \<in> set (filter (\<lambda>e. \<not> fst e \<le> now) (timer_queue r))"
    have "snd e \<notin> snd ` set ?es"
    proof
      assume "snd e \<in> snd ` set ?es"
      then obtain e' where e': "e' \<in> set (timer_queue r)" "fst e' \<le> now" "snd e' = snd e"
        by (auto simp: due_facts)
      have "inj_on snd (set (timer_queue r))"
        using assms by (simp add: pending_queue_def distinct_map)
      then have "e' = e"
        using e e' by (auto dest: inj_onD)
      then show False
        using e e' by simp
    qed
    then have "promises (TimerQueue_Run now r) ! snd e = promises r ! snd e"
      using facts by (simp add: TimerQueue_Run_def)
    then show "snd e < length (promises (TimerQueue_Run now r))"
      and "promises (TimerQueue_Run now r) ! snd e = Pending"
      using assms e len by (simp_all add: pending_queue_def)
  qed
  show "settled (snd e) (TimerQueue_Run now r)" if "e \<in> set (timer_queue r)" "fst e \<le> now" for e
  proof -
    have "snd e \<in> snd ` set ?es"
      using that by (auto simp: due_facts)
    then have "promises (TimerQueue_Run now r) ! snd e = Resolved JSUndefined"
      unfolding TimerQueue_Run_def using facts by blast
    then show ?thesis
      using assms that len by (simp add: settled_def pending_queue_def)
  qed
  show "settled p (TimerQueue_Run now r)" if "settled p r" for p
  proof -
    have "p \<notin> snd ` set ?es"
      using pend that by (auto simp: settled_def)
    then have "promises (TimerQueue_Run now r) ! p = promises r ! p"
      using facts by (simp add: TimerQueue_Run_def)
    then show ?thesis
      using that len by (simp add: settled_def)
  qed
qed

lemma frames_pending:
  assumes "pending_queue r"
  shows "resolutions (frames ts r) @
           map (\<lambda>e. (snd e, JSUndefined)) (sort_key fst (timer_queue (frames ts r))) =
         resolutions r @ map (\<lambda>e. (snd e, JSUndefined)) (sort_key fst (timer_queue r)) \<and>
         timer_queue (frames ts r) =
           filter (\<lambda>e. \<forall>t \<in> set ts. \<not> fst e \<le> t) (timer_queue r) \<and>
         (\<forall>e \<in> set (timer_queue r). (\<exists>t \<in> set ts. fst e \<le> t) \<longrightarrow> settled (snd e) (frames ts r)) \<and>
         (\<forall>p. settled p r \<longrightarrow> settled p (frames ts r))"
  using assms
proof (induction ts arbitrary: r)
  case Nil
  then show ?case by simp
next
  case (Cons t ts)
  let ?r = "TimerQueue_Run t r"
  note run = TimerQueue_Run_pending [OF Cons.prems, where now = t]
  from Cons.IH [OF run(3)]
  have ih1: "resolutions (frames ts ?r) @
           map (\<lambda>e. (snd e, JSUndefined)) (sort_key fst (timer_queue (frames ts ?r))) =
         resolutions ?r @ map (\<lambda>e. (snd e, JSUndefined)) (sort_key fst (timer_queue ?r))"
    and ih2: "timer_queue (frames ts ?r) =
           filter (\<lambda>e. \<forall>t \<in> set ts. \<not> fst e \<le> t) (timer_queue ?r)"
    and ih3: "\<forall>e \<in> set (timer_queue ?r). (\<exists>t \<in> set ts. fst e \<le> t) \<longrightarrow> settled (snd e) (frames ts ?r)"
    and ih4: "\<forall>p. settled p ?r \<longrightarrow> settled p (frames ts ?r)"
    by blast+
  have "resolutions ?r @ map (\<lambda>e. (snd e, JSUndefined)) (sort_key fst (timer_queue ?r)) =
        resolutions r @ map (\<lambda>e. (snd e, JSUndefined)) (sort_key fst (timer_queue r))"
    using sort_key_split [where f = fst and xs = "timer_queue r" and t = t]
    by (simp add: run(1,2) due_def)
  then have c1: "resolutions (frames (t # ts) r) @
           map (\<lambda>e. (snd e, JSUndefined)) (sort_key fst (timer_queue (frames (t # ts) r))) =
         resolutions r @ map (\<lambda>e. (snd e, JSUndefined)) (sort_key fst (timer_queue r))"
    using ih1 by (simp add: OnFrame_def)
  have c2: "timer_queue (frames (t # ts) r) =
           filter (\<lambda>e. \<forall>t \<in> set (t # ts). \<not> fst e \<le> t) (timer_queue r)"
    using ih2 by (simp add: OnFrame_def run(2) conj_commute)
  have c3: "\<forall>e \<in> set (timer_queue r). (\<exists>t \<in> set (t # ts). fst e \<le> t) \<longrightarrow>
      settled (snd e) (frames (t # ts) r)"
  proof (intro ballI impI)
    fix e assume e: "e \<in> set (timer_queue r)" and ex: "\<exists>t \<in> set (t # ts). fst e \<le> t"
    show "settled (snd e) (frames (t # ts) r)"
    proof (cases "fst e \<le> t")
      case True
      then show ?thesis
        using run(4) [OF e] ih4 by (simp add: OnFrame_def)
    next
      case False
      then have "e \<in> set (timer_queue ?r)" "\<exists>t \<in> set ts. fst e \<le> t"
        using e ex by (simp_all add: run(2))
      then show ?thesis
        using ih3 by (simp add: OnFrame_def)
    qed
  qed
  have c4: "\<forall>p. settled p r \<longrightarrow> settled p (frames (t # ts) r)"
    using run(5) ih4 by (simp add: OnFrame_def)
  show ?case
    using c1 c2 c3 c4 by blast
qed

lemma WaitCallback_number:
  "WaitCallback now [JSNumber d] r =
     \<lparr>runtime_after =
        r\<lparr>promises := promises r @ [Pending],
          timer_queue := timer_queue r @ [(now + sint d, length (promises r))]\<rparr>,
      return_value = JSPromise (length (promises r)), exception = None\<rparr>"
  by (simp add: WaitCallback_def Wait_def arg_def TimerQueue_Add_def returned_def Let_def)

lemma waits_fields:
  "timer_queue (waits now ds r) =
     timer_queue r @
     map (\<lambda>(d, p). (now + sint d, p))
       (zip ds [length (promises r)..<length (promises r) + length ds]) \<and>
   promises (waits now ds r) = promises r @ replicate (length ds) Pending \<and>
   resolutions (waits now ds r) = resolutions r"
proof (induction ds arbitrary: r)
  case Nil
  then show ?case by simp
next
  case (Cons d ds)
  let ?r = "runtime_after (WaitCallback now [JSNumber d] r)"
  have "[length (promises r)..<length (promises r) + Suc (length ds)] =
      length (promises r) # [Suc (length (promises r))..<length (promises r) + Suc (length ds)]"
    by (rule upt_conv_Cons) simp
  then have up: "[length (promises r)..<length (promises r) + length (d # ds)] =
      length (promises r) # [length (promises ?r)..<length (promises ?r) + length ds]"
    by (simp add: WaitCallback_number)
  show ?case
    using Cons.IH [of ?r]
    by (simp only: up waits.simps) (simp add: WaitCallback_number replicate_append_same)
qed

lemma frames_resolved:
  assumes "pending_queue r"
  shows "\<exists>es. resolutions (frames ts r) = resolutions r @ map (\<lambda>e. (snd e, JSUndefined)) es \<and>
              es @ sort_key fst (timer_queue (frames ts r)) = sort_key fst (timer_queue r)"
  using assms
proof (induction ts arbitrary: r)
  case Nil
  then show ?case by simp
next
  case (Cons t ts)
  let ?r = "TimerQueue_Run t r"
  note run = TimerQueue_Run_pending [OF Cons.prems, where now = t]
  from Cons.IH [OF run(3)] obtain es where
    es: "resolutions (frames ts ?r) = resolutions ?r @ map (\<lambda>e. (snd e, JSUndefined)) es"
      "es @ sort_key fst (timer_queue (frames ts ?r)) = sort_key fst (timer_queue ?r)"
    by blast
  let ?es = "due t (timer_queue r) @ es"
  have "resolutions (frames (t # ts) r) = resolutions r @ map (\<lambda>e. (snd e, JSUndefined)) ?es"
    using es(1) by (simp add: OnFrame_def run(1))
  moreover have "?es @ sort_key fst (timer_queue (frames (t # ts) r)) = sort_key fst (timer_queue r)"
    using es(2) sort_key_split [where f = fst and xs = "timer_queue r" and t = t]
    by (simp add: OnFrame_def run(2) due_def)
  ultimately show ?case
    by blast
qed

lemma waits_pending:
  assumes "pending_queue r"
  shows "pending_queue (waits now ds r)"
proof -
  let ?n = "length (promises r)"
  let ?ids = "[?n..<?n + length ds]"
  let ?g = "\<lambda>(d :: 64 word, p :: nat). (now + sint d, p)"
  have q: "timer_queue (waits now ds r) = timer_queue r @ map ?g (zip ds ?ids)"
    and pr: "promises (waits now ds r) = promises r @ replicate (length ds) Pending"
    using waits_fields [of now ds r] by simp_all
  have len: "length ds = length ?ids"
    by simp
  have "map snd (map ?g (zip ds ?ids)) = map snd (zip ds ?ids)"
    by (rule nth_equalityI) (simp_all add: case_prod_beta)
  also have "\<dots> = ?ids"
    using len by (rule map_snd_zip)
  finally have snd: "map snd (timer_queue (waits now ds r)) = map snd (timer_queue r) @ ?ids"
    by (simp only: q map_append)
  have old: "\<forall>e \<in> set (timer_queue r). snd e < ?n \<and> promises r ! snd e = Pending"
    using assms by (simp add: pending_queue_def)
  have "distinct (map snd (timer_queue r) @ ?ids)"
    using assms old by (auto simp: pending_queue_def)
  then have d: "distinct (map snd (timer_queue (waits now ds r)))"
    by (simp only: snd)
  have "\<forall>entry \<in> set (timer_queue (waits now ds r)).
      snd entry < length (promises (waits now ds r)) \<and>
      promises (waits now ds r) ! snd entry = Pending"
  proof
    fix entry assume "entry \<in> set (timer_queue (waits now ds r))"
    then have "snd entry \<in> set (map snd (timer_queue (waits now ds r)))"
      by (simp del: map_map)
    then have "snd entry \<in> snd ` set (timer_queue r) \<or> snd entry \<in> set ?ids"
      by (simp only: snd) auto
    then show "snd entry < length (promises (waits now ds r)) \<and>
      promises (waits now ds r) ! snd entry = Pending"
      using old by (auto simp: pr nth_append)
  qed
  then show ?thesis
    using d by (simp add: pending_queue_def)
qed

text \<open>
  C4: for every sequence of calls \<^verbatim>\<open>wait(d1)\<close>, \<^verbatim>\<open>wait(d2)\<close>, ... issued at the same
  instant, once a frame has come at or after the last of their deadlines, their promises
  have been resolved in ascending order of the delays, ties in the order of the calls;
  none of their entries is left in the timer queue, and each promise is resolved with no
  value. The timers that were pending before the calls have different, unresolved
  promises.
\<close>

theorem waits_resolve_in_order_of_delay:
  assumes "pending_queue rt"
    and "\<exists>t \<in> set ts. \<forall>d \<in> set ds. now + sint d \<le> t"
  shows "(\<exists>rs. resolutions (frames ts (waits now ds rt)) = resolutions rt @ rs \<and>
            filter (\<lambda>(p, v). length (promises rt) \<le> p) rs =
              map (\<lambda>(d, p). (p, JSUndefined))
                (sort_key (\<lambda>(d, p). sint d)
                   (zip ds [length (promises rt)..<length (promises rt) + length ds]))) \<and>
         (\<forall>entry \<in> set (timer_queue (frames ts (waits now ds rt))).
            snd entry < length (promises rt)) \<and>
         (\<forall>i < length ds.
            return_value (WaitCallback now [JSNumber (ds ! i)] (waits now (take i ds) rt)) =
              JSPromise (length (promises rt) + i) \<and>
            settled (length (promises rt) + i) (frames ts (waits now ds rt)))"
proof -
  let ?n = "length (promises rt)"
  let ?zs = "zip ds [?n..<?n + length ds]"
  let ?g = "\<lambda>(d :: 64 word, p :: nat). (now + sint d, p)"
  let ?f = "\<lambda>e :: int \<times> nat. (snd e, JSUndefined)"
  let ?new = "\<lambda>e :: int \<times> nat. ?n \<le> snd e"
  let ?r = "waits now ds rt"
  obtain t where t: "t \<in> set ts" "\<forall>d \<in> set ds. now + sint d \<le> t"
    using assms(2) by blast
  have q: "timer_queue ?r = timer_queue rt @ map ?g ?zs"
    and res: "resolutions ?r = resolutions rt"
    using waits_fields [of now ds rt] by simp_all
  have old: "\<forall>e \<in> set (timer_queue rt). \<not> ?new e"
    using assms(1) by (auto simp: pending_queue_def)
  have new: "\<forall>e \<in> set (map ?g ?zs). ?new e \<and> fst e \<le> t"
    using t(2) by (auto dest: set_zip_leftD set_zip_rightD)
  have pq: "pending_queue ?r"
    using assms(1) by (rule waits_pending)
  note fr = frames_pending [OF pq, of ts]
  have left: "\<forall>e \<in> set (timer_queue (frames ts ?r)). \<not> ?new e"
  proof
    fix e assume "e \<in> set (timer_queue (frames ts ?r))"
    then have "e \<in> set (timer_queue ?r)" "\<not> fst e \<le> t"
      using fr t(1) by auto
    then have "e \<in> set (timer_queue rt)"
      using new by (auto simp: q)
    then show "\<not> ?new e"
      using old by blast
  qed
  from frames_resolved [OF pq, of ts] obtain es where
    es: "resolutions (frames ts ?r) = resolutions ?r @ map ?f es"
      "es @ sort_key fst (timer_queue (frames ts ?r)) = sort_key fst (timer_queue ?r)"
    by blast
  have "filter ?new es =
        filter ?new (es @ sort_key fst (timer_queue (frames ts ?r)))"
    using left by (simp add: filter_sort filter_empty_conv [THEN iffD2])
  also have "\<dots> = sort_key fst (filter ?new (timer_queue ?r))"
    by (simp only: es(2) filter_sort)
  also have "filter ?new (timer_queue ?r) = map ?g ?zs"
    using old new by (simp add: q filter_empty_conv [THEN iffD2] filter_id_conv [THEN iffD2])
  also have "sort_key fst (map ?g ?zs) = map ?g (sort_key (\<lambda>x. fst (?g x)) ?zs)"
    by (rule sort_key_map)
  also have "sort_key (\<lambda>x. fst (?g x)) ?zs = sort_key (\<lambda>(d, p). sint d) ?zs"
    by (rule sort_key_cong_order) (auto simp: case_prod_beta)
  finally have order: "filter ?new es = map ?g (sort_key (\<lambda>(d, p). sint d) ?zs)" .
  have "filter (\<lambda>(p, v). ?n \<le> p) (map ?f es) = map ?f (filter ?new es)"
    by (simp add: filter_map comp_def)
  also have "\<dots> = map (\<lambda>(d, p). (p, JSUndefined)) (sort_key (\<lambda>(d, p). sint d) ?zs)"
    by (simp add: order case_prod_beta comp_def)
  finally have first: "\<exists>rs. resolutions (frames ts ?r) = resolutions rt @ rs \<and>
      filter (\<lambda>(p, v). ?n \<le> p) rs =
        map (\<lambda>(d, p). (p, JSUndefined)) (sort_key (\<lambda>(d, p). sint d) ?zs)"
    using es(1) res by auto
  have second: "\<forall>entry \<in> set (timer_queue (frames ts ?r)). snd entry < ?n"
    using left by auto
  have each: "\<forall>i < length ds.
      return_value (WaitCallback now [JSNumber (ds ! i)] (waits now (take i ds) rt)) =
        JSPromise (?n + i) \<and> settled (?n + i) (frames ts ?r)"
  proof (intro allI impI)
    fix i assume i: "i < length ds"
    have "length (promises (waits now (take i ds) rt)) = ?n + i"
      using waits_fields [of now "take i ds" rt] i by simp
    then have ret: "return_value (WaitCallback now [JSNumber (ds ! i)] (waits now (take i ds) rt)) =
        JSPromise (?n + i)"
      by (simp add: WaitCallback_number)
    have "?zs ! i = (ds ! i, ?n + i)"
      using i by simp
    then have "(ds ! i, ?n + i) \<in> set ?zs"
      using i by (metis length_zip length_upt add_diff_cancel_left' min.idem nth_mem)
    then have "(now + sint (ds ! i), ?n + i) \<in> set (map ?g ?zs)"
      by force
    then have "(now + sint (ds ! i), ?n + i) \<in> set (timer_queue ?r)"
      "now + sint (ds ! i) \<le> t"
      using new by (auto simp: q)
    then have "settled (?n + i) (frames ts ?r)"
      using fr t(1) by force
    then show "return_value (WaitCallback now [JSNumber (ds ! i)] (waits now (take i ds) rt)) =
        JSPromise (?n + i) \<and> settled (?n + i) (frames ts ?r)"
      using ret by simp
  qed
  show ?thesis
    using first second each by blast
qed

theorem waits_resolve_in_order_of_delay_witness:
  "resolutions (frames [10, 60, 200] (waits 0 [100, 50, 50, 5] Create)) =
     [(3, JSUndefined), (1, JSUndefined), (2, JSUndefined), (0, JSUndefined)] \<and>
   timer_queue (frames [10, 60, 200] (waits 0 [100, 50, 50, 5] Create)) = [] \<and>
   settled 0 (frames [10, 60, 200] (waits 0 [100, 50, 50, 5] Create))"
proof -
  have h1: "pending_queue Create"
    by (simp add: Create_def pending_queue_def)
  have h2: "\<exists>t \<in> set [10, 60, 200]. \<forall>d \<in> set [100, 50, 50, 5 :: 64 word]. 0 + sint d \<le> t"
    by simp
  have n: "length (promises Create) = 0" "resolutions Create = []"
    by (simp_all add: Create_def)
  have upt: "[0..<4] = [0, 1, 2, 3]"
    by (simp add: upt_rec)
  have none: "xs = []" if "\<forall>entry \<in> set xs. snd entry < (0 :: nat)" for xs :: "(int \<times> nat) list"
    using that by (cases xs) auto
  show ?thesis
    using waits_resolve_in_order_of_delay [OF h1 h2] none
    by (simp add: n upt)
qed

section \<open>Arguments of the wrong number or type\<close>










section \<open>Instances\<close>

theorem RemoveEventListener_all_or_each_witness:
  "listeners_of ''connect''
     (RemoveEventListener ''connect'' (Some 1)
        \<lparr>finalized = False, events = [],
         event_listeners = [(''connect'', [Some 1, Some 2, Some 1])], deferred_events = []\<rparr>) =
   [Some 2]"
  using RemoveEventListener_all_or_each
    [of "''connect''" "\<lparr>finalized = False, events = [],
         event_listeners = [(''connect'', [Some 1, Some 2, Some 1])], deferred_events = []\<rparr>" 1 Create]
  by (simp add: listeners_of_def)

theorem VerifyNoEventHandlersLeft_witness:
  "VerifyNoEventHandlersLeft
     \<lparr>finalized = False, events = [],
      event_listeners = [(''connect'', [Some 1]), (''quit'', [])], deferred_events = []\<rparr> =
   ([StillHasListeners ''connect'' 1, NotClearingMap],
     \<lparr>finalized = False, events = [],
      event_listeners = [(''connect'', [Some 1]), (''quit'', [])], deferred_events = []\<rparr>) \<and>
   VerifyNoEventHandlersLeft
     \<lparr>finalized = False, events = [],
      event_listeners = [(''quit'', [])], deferred_events = []\<rparr> =
   ([], \<lparr>finalized = False, events = [], event_listeners = [], deferred_events = []\<rparr>)"
  using VerifyNoEventHandlersLeft_clears_iff_none_left
    [of "\<lparr>finalized = False, events = [],
      event_listeners = [(''connect'', [Some 1]), (''quit'', [])], deferred_events = []\<rparr>"]
    VerifyNoEventHandlersLeft_clears_iff_none_left
    [of "\<lparr>finalized = False, events = [],
      event_listeners = [(''quit'', [])], deferred_events = []\<rparr>"]
  by simp

theorem dispatchEvent_calls_A_B_A_witness:
  "listeners_of ''connect'' (global_scope Create) = [] \<and>
   list_all (keeps ''connect'') [PreventDefault] \<and>
   list_all (keeps ''connect'') [AddListener ''quit'' 3] \<and>
   (\<exists>r. DispatchEventCallback (\<lambda>f. if f = 1 then [PreventDefault] else [AddListener ''quit'' 3])
           [JSString ''connect'', JSNull] (addEventListeners ''connect'' [1, 2, 1] Create) = Inr r \<and>
        map fst (calls (runtime_after r)) = [1, 2, 1])"
proof -
  have h1: "listeners_of ''connect'' (global_scope Create) = []"
    by (simp add: listeners_of_def Create_def GlobalScope_new_def)
  have h2: "list_all (keeps ''connect'')
              ((\<lambda>f. if f = 1 then [PreventDefault] else [AddListener ''quit'' 3]) (1::nat))"
    by simp
  have h3: "list_all (keeps ''connect'')
              ((\<lambda>f. if f = 1 then [PreventDefault] else [AddListener ''quit'' 3]) (2::nat))"
    by simp
  have c: "calls Create = []"
    by (simp add: Create_def)
  show ?thesis
    using dispatchEvent_calls_A_B_A [OF h1 h2 h3, of undefined undefined JSNull] h1
    by (simp add: c)
qed

theorem throwing_listener_witness:
  "functions_of (listeners_of ''connect''
      (global_scope (addEventListeners ''connect'' [1, 2] Create))) = [1, 2] \<and>
   list_all (keeps ''connect'') [Throw ''main.js'' 3 ''boom''] \<and>
   (\<exists>prevented event' rt'.
      DispatchEvent (\<lambda>f. if f = 1 then [Throw ''main.js'' 3 ''boom''] else []) ''connect'' JSNull
        (addEventListeners ''connect'' [1, 2] Create) = Inr (prevented, event', rt') \<and>
      map fst (calls rt') = [1, 2] \<and>
      message_queue (exception_handler rt') =
        [\<lparr>msg_source = ''dispatched event `connect`'', msg_filename = ''main.js'',
          msg_line = 3, msg_text = ''boom''\<rparr>])"
proof -
  let ?sc = "\<lambda>f::nat. if f = 1 then [Throw ''main.js'' 3 ''boom''] else []"
  let ?rt = "addEventListeners ''connect'' [1, 2] Create"
  have l: "listeners_of ''connect'' (global_scope ?rt) = [Some 1, Some 2]"
    by (simp only: listeners_of_addEventListeners)
      (simp add: listeners_of_def Create_def GlobalScope_new_def)
  have h: "\<forall>f \<in> set (functions_of (listeners_of ''connect'' (global_scope ?rt))).
             list_all (keeps ''connect'') (?sc f)"
    by (simp only: l) simp
  have c: "calls ?rt = []" "message_queue (exception_handler ?rt) = []"
    by (simp_all add: AddEventListenerCallback_valid returned_def Create_def)
  show ?thesis
    using throwing_listener_does_not_abort_dispatch [OF h, of JSNull]
    by (simp only: l c) simp
qed

lemma DispatchEventCallback_return_value:
  "DispatchEventCallback sc arguments rt = Inr r \<Longrightarrow> return_value r = JSUndefined"
  by (auto simp: DispatchEventCallback_def ThrowException_def returned_def Let_def
      split: if_splits sum.splits)

text \<open>
  C1: \<^verbatim>\<open>dispatchEvent\<close>, called from a script with a type and a payload, is to return a
  boolean: false for a type without listeners, and otherwise whether a listener set the
  default-prevented flag of the payload. \<^verbatim>\<open>GlobalScope::DispatchEvent\<close> computes that
  boolean, but \<^verbatim>\<open>DispatchEventCallback\<close> never sets its return value: the script gets
  undefined, with a listener that prevents the default and with no listener at all.
\<close>

theorem dispatchEvent_return_value_never_set:
  "(case DispatchEvent (\<lambda>f. [PreventDefault]) ''connect'' (JSEvent ''Connect'' [] False)
           (addEventListeners ''connect'' [1] Create) of
      Inl e \<Rightarrow> False
    | Inr (prevented, event', rt') \<Rightarrow> prevented) \<and>
   (case DispatchEventCallback (\<lambda>f. [PreventDefault])
           [JSString ''connect'', JSEvent ''Connect'' [] False]
           (addEventListeners ''connect'' [1] Create) of
      Inl e \<Rightarrow> False
    | Inr r \<Rightarrow> return_value r = JSUndefined \<and> exception r = None) \<and>
   (case DispatchEventCallback (\<lambda>f. []) [JSString ''connect''] Create of
      Inl e \<Rightarrow> False
    | Inr r \<Rightarrow> return_value r = JSUndefined \<and> exception r = None)"
  by (simp add: DispatchEventCallback_def DispatchEvent_def Call_def arg_def returned_def
      AddEventListenerCallback_valid AddEventListener_def subscript_def Create_def
      GlobalScope_new_def Local_New_def)

text \<open>
  C3: when a listener removes listeners of the dispatched type during the dispatch, every
  listener that was in the list at the start and has not run yet is still to be called
  once. The loop has no snapshot: with the listeners \<open>1\<close> and \<open>2\<close>, where \<open>1\<close> removes
  itself, the erase shifts \<open>2\<close> into the place the loop has just left and invalidates
  its iterators; \<open>2\<close> has not been called when the behaviour becomes undefined.
\<close>

theorem removal_during_dispatch_invalidates:
  "listeners_of ''connect'' (global_scope (addEventListeners ''connect'' [1, 2] Create)) =
     [Some 1, Some 2] \<and>
   (case DispatchEvent (\<lambda>f. if f = 1 then [RemoveListener ''connect'' (Some 1)] else [])
           ''connect'' JSNull (addEventListeners ''connect'' [1, 2] Create) of
      Inl (e, rt') \<Rightarrow>
        e = IteratorInvalidated \<and> map fst (calls rt') = [1] \<and>
        listeners_of ''connect'' (global_scope rt') = [Some 2]
    | Inr r \<Rightarrow> False)"
  by (simp add: DispatchEvent_def Call_def returned_def erases_def listeners_of_def
      AddEventListenerCallback_valid AddEventListener_def subscript_def Create_def
      GlobalScope_new_def Local_New_def RemoveEventListener_def RemoveEventListener_loop_filter)

end
